theory Spec2Isabelle
  imports Complex_Main "HOL-Library.Sublist" "HOL-Library.Char_ord" "HOL-Library.List_Lexorder"
begin

section \<open>Thrown errors\<close>

text \<open>
  A thrown JavaScript error, with its message: \<open>new Error(msg)\<close>, the \<open>TypeError\<close> the
  runtime raises when a property of \<open>undefined\<close> or \<open>null\<close> is read, and the
  \<open>SyntaxError\<close> of \<open>JSON.parse\<close>. A call that can throw returns a value of
  \<open>error + 'a\<close>.
\<close>

datatype error = Error string | TypeError string | SyntaxError string

fun message :: "error \<Rightarrow> string" where
  "message (Error m) = m"
| "message (TypeError m) = m"
| "message (SyntaxError m) = m"

text \<open>\<open>s.includes(t)\<close>: \<open>t\<close> occurs in \<open>s\<close>.\<close>

definition str_includes :: "string \<Rightarrow> string \<Rightarrow> bool" where
  "str_includes s t \<longleftrightarrow> sublist t s"

section \<open>JavaScript strings and regular expressions\<close>

text \<open>
  A JavaScript string is modelled as a \<open>string\<close>: each \<open>char\<close> stands for one UTF-16
  code unit below 256, so \<open>length\<close> is the JavaScript \<open>.length\<close> on such strings.
\<close>

definition js_line_terminator :: "char \<Rightarrow> bool" where
  "js_line_terminator c \<longleftrightarrow> c = CHR 0x0A \<or> c = CHR 0x0D"

text \<open>The regular-expression atom \<open>.\<close> (no \<open>s\<close> flag): any character but a line terminator.\<close>

definition js_dot :: "char \<Rightarrow> bool" where
  "js_dot c \<longleftrightarrow> \<not> js_line_terminator c"

text \<open>The atom \<open>\d\<close>.\<close>

definition js_digit :: "char \<Rightarrow> bool" where
  "js_digit c \<longleftrightarrow> c \<in> set ''0123456789''"

text \<open>
  The atom \<open>\s\<close>, which is also the set of characters \<open>String.prototype.trim\<close> removes:
  tab, line feed, vertical tab, form feed, carriage return, space and no-break space
  (the members below 256).
\<close>

definition js_space :: "char \<Rightarrow> bool" where
  "js_space c \<longleftrightarrow> c \<in> {CHR 0x09, CHR 0x0A, CHR 0x0B, CHR 0x0C, CHR 0x0D, CHR 0x20, CHR 0xA0}"

text \<open>
  Case folding of the \<open>i\<close> flag. Every pattern of the program is ASCII, and no character
  outside ASCII folds to an ASCII letter, so folding the ASCII letters is exact.
\<close>

definition js_lower :: "char \<Rightarrow> char" where
  "js_lower c =
     (let n = (of_char c :: nat) in if 65 \<le> n \<and> n \<le> 90 then char_of (n + 32) else c)"

text \<open>
  A pattern is a function from the rest of the input to the list of inputs that remain after
  each way the pattern can match at its start (the backtracking alternatives). The program's
  patterns only repeat single-character classes, so repetition is given for classes.
\<close>

type_synonym matcher = "string \<Rightarrow> string list"

definition ci_equal :: "string \<Rightarrow> string \<Rightarrow> bool" where
  "ci_equal a b \<longleftrightarrow> map js_lower a = map js_lower b"

definition lit_i :: "string \<Rightarrow> matcher" where
  "lit_i p s =
     (if length p \<le> length s \<and> ci_equal (take (length p) s) p
      then [drop (length p) s] else [])"

definition seq :: "matcher \<Rightarrow> matcher \<Rightarrow> matcher" where
  "seq a b s = concat (map b (a s))"

definition alt :: "matcher \<Rightarrow> matcher \<Rightarrow> matcher" where
  "alt a b s = a s @ b s"

definition opt :: "matcher \<Rightarrow> matcher" where
  "opt a s = a s @ [s]"

definition star_cls :: "(char \<Rightarrow> bool) \<Rightarrow> matcher" where
  "star_cls P s = map (\<lambda>k. drop k s) (rev [0 ..< Suc (length (takeWhile P s))])"

definition plus_cls :: "(char \<Rightarrow> bool) \<Rightarrow> matcher" where
  "plus_cls P s = map (\<lambda>k. drop k s) (rev [1 ..< Suc (length (takeWhile P s))])"

text \<open>The assertion \<open>$\<close> without the \<open>m\<close> flag: only the end of the input.\<close>

definition eoi :: matcher where
  "eoi s = (if s = [] then [[]] else [])"

definition seqs :: "matcher list \<Rightarrow> matcher" where
  "seqs ms = foldr seq ms (\<lambda>s. [s])"

text \<open>\<open>RegExp.prototype.test\<close> for a pattern that starts with \<open>^\<close>, and for one that does not.\<close>

definition test_anchored :: "matcher \<Rightarrow> string \<Rightarrow> bool" where
  "test_anchored m s \<longleftrightarrow> m s \<noteq> []"

definition test_anywhere :: "matcher \<Rightarrow> string \<Rightarrow> bool" where
  "test_anywhere m s \<longleftrightarrow> list_ex (\<lambda>t. m t \<noteq> []) (suffixes s)"

section \<open>Source type classifier (src/detect.js)\<close>

text \<open>\<^verbatim>\<open>/^https?:\/\/(www\.)?(twitter\.com|x\.com)\/.+\/status\/\d+/i\<close>\<close>

definition TWITTER_RE :: "string \<Rightarrow> bool" where
  "TWITTER_RE = test_anchored (seqs
     [lit_i ''http'', opt (lit_i ''s''), lit_i ''://'', opt (lit_i ''www.''),
      alt (lit_i ''twitter.com'') (lit_i ''x.com''), lit_i ''/'', plus_cls js_dot,
      lit_i ''/status/'', plus_cls js_digit])"

text \<open>\<^verbatim>\<open>/^https?:\/\/(www\.)?(youtube\.com\/watch\?|youtu\.be\/|youtube\.com\/shorts\/)/i\<close>\<close>

definition YOUTUBE_RE :: "string \<Rightarrow> bool" where
  "YOUTUBE_RE = test_anchored (seqs
     [lit_i ''http'', opt (lit_i ''s''), lit_i ''://'', opt (lit_i ''www.''),
      alt (lit_i ''youtube.com/watch?'')
        (alt (lit_i ''youtu.be/'') (lit_i ''youtube.com/shorts/''))])"

text \<open>\<^verbatim>\<open>/\.pdf(\?.*)?$/i\<close>\<close>

definition PDF_RE :: "string \<Rightarrow> bool" where
  "PDF_RE = test_anywhere (seqs
     [lit_i ''.pdf'', opt (seqs [lit_i ''?'', star_cls js_dot]), eoi])"

text \<open>\<^verbatim>\<open>/^https?:\/\//i\<close>, used by the classifier and by the normalizer.\<close>

definition HTTP_RE :: "string \<Rightarrow> bool" where
  "HTTP_RE = test_anchored (seqs [lit_i ''http'', opt (lit_i ''s''), lit_i ''://''])"

text \<open>
  The argument is a string, \<open>null\<close> or \<open>undefined\<close> (\<open>None\<close>); \<open>!url\<close> holds for \<open>None\<close>
  and for the empty string.
\<close>

definition detectSourceType :: "string option \<Rightarrow> string" where
  "detectSourceType url =
     (case url of
        None \<Rightarrow> ''text''
      | Some u \<Rightarrow>
          if u = [] then ''text''
          else if TWITTER_RE u then ''tweet''
          else if YOUTUBE_RE u then ''video''
          else if PDF_RE u then ''pdf''
          else if HTTP_RE u then ''article''
          else ''other'')"

text \<open>
  Vocabulary for stating what the classifier does: the part of a URL before its first
  \<open>?\<close> (the path, ignoring the query string), and a tail that is empty or a \<open>?\<close>
  followed by characters of one line.
\<close>

definition url_path_part :: "string \<Rightarrow> string" where
  "url_path_part u = takeWhile (\<lambda>c. c \<noteq> CHR ''?'') u"

definition query_tail :: "string \<Rightarrow> bool" where
  "query_tail q =
     (case q of [] \<Rightarrow> True | c # r \<Rightarrow> c = CHR ''?'' \<and> list_all (\<lambda>x. \<not> js_line_terminator x) r)"

section \<open>Chunker (src/chunk.js)\<close>

definition CHUNK_SIZE :: nat where "CHUNK_SIZE = 800"
definition OVERLAP :: nat where "OVERLAP = 200"
definition MIN_CHUNK :: nat where "MIN_CHUNK = 100"

text \<open>\<open>String.prototype.trim\<close>.\<close>

definition trim :: "string \<Rightarrow> string" where
  "trim s = rev (dropWhile js_space (rev (dropWhile js_space s)))"

text \<open>\<open>s.slice(-n)\<close>: the last \<open>n\<close> characters, the whole string when it is shorter.\<close>

definition slice_last :: "nat \<Rightarrow> string \<Rightarrow> string" where
  "slice_last n s = drop (length s - n) s"

definition sentence_end :: "char \<Rightarrow> bool" where
  "sentence_end c \<longleftrightarrow> c = CHR ''.'' \<or> c = CHR ''!'' \<or> c = CHR ''?''"

text \<open>
  \<open>text.split(SENTENCE_RE)\<close> with \<^verbatim>\<open>SENTENCE_RE = /(?<=[.!?])\s+/\<close>. The pattern matches
  at a position whose previous character is one of \<open>.!?\<close> and whose next characters are
  white space, and it takes the whole run of white space. \<open>split_sentences cur s\<close> scans
  \<open>s\<close>; \<open>cur\<close> is the piece read since the last separator. A separator cannot start
  at the start of a piece: the character before it is the start of the text or white space.
\<close>

function split_sentences :: "string \<Rightarrow> string \<Rightarrow> string list" where
  "split_sentences cur [] = [cur]"
| "split_sentences cur (c # cs) =
     (if cur \<noteq> [] \<and> sentence_end (last cur) \<and> js_space c
      then cur # split_sentences [] (dropWhile js_space cs)
      else split_sentences (cur @ [c]) cs)"
  by pat_completeness auto
termination
  by (relation "measure (\<lambda>(cur, s). length s)")
     (auto simp: le_imp_less_Suc length_dropWhile_le)

text \<open>The sentences the loop runs over: the pieces that are not blank.\<close>

definition sentences :: "string \<Rightarrow> string list" where
  "sentences text = filter (\<lambda>s. length (trim s) > 0) (split_sentences [] text)"

text \<open>
  One round of the \<open>for\<close> loop, on the state \<open>(chunks, current)\<close>; \<open>overlapBuffer\<close> is
  only read in the round that writes it.
\<close>

definition chunk_step :: "string list \<times> string \<Rightarrow> string \<Rightarrow> string list \<times> string" where
  "chunk_step st sentence =
     (case st of (chunks, current) \<Rightarrow>
        if length current + length sentence > CHUNK_SIZE \<and> length current \<ge> MIN_CHUNK
        then (let overlapBuffer = slice_last OVERLAP current
              in (chunks @ [trim current], overlapBuffer @ sentence))
        else (chunks, current @ (if current \<noteq> [] then '' '' else '''') @ sentence))"

text \<open>The handling of the last chunk, after the loop.\<close>

definition chunk_finish :: "string list \<times> string \<Rightarrow> string list" where
  "chunk_finish st =
     (case st of (chunks, current) \<Rightarrow>
        if length (trim current) > 0
        then (if length (trim current) < MIN_CHUNK \<and> length chunks > 0
              then butlast chunks @ [last chunks @ '' '' @ trim current]
              else chunks @ [trim current])
        else chunks)"

text \<open>The argument is a string; \<open>!text\<close> holds for the empty string.\<close>

definition chunkText :: "string \<Rightarrow> string list" where
  "chunkText text =
     (if text = [] \<or> length text < MIN_CHUNK then (if text \<noteq> [] then [text] else [])
      else if length (sentences text) = 0 then [text]
      else chunk_finish (foldl chunk_step ([], '''') (sentences text)))"


text \<open>A sentence is kept by a loop state when a finished chunk or the trimmed buffer holds it.\<close>

definition kept :: "string \<Rightarrow> string list \<times> string \<Rightarrow> bool" where
  "kept s st \<longleftrightarrow> (\<exists>c\<in>set (fst st). sublist (trim s) c) \<or> sublist (trim s) (trim (snd st))"

section \<open>Ingestion lock (lock.js, src/unnamed/part_001)\<close>

definition STALE_MS :: int where "STALE_MS = 15 * 60 * 1000"

text \<open>
  The text of the marker file, by what the \<open>try\<close> block of \<open>acquireLock\<close> does on it.
  \<^item> \<open>Marker pid ts\<close>: \<open>JSON.parse\<close> reads an object whose \<open>ts\<close> is the number \<open>ts\<close> and
    whose \<open>pid\<close> is the process id \<open>pid\<close>; this is what \<open>acquireLock\<close> writes.
  \<^item> \<open>Unparsable m\<close>: no JSON text; \<open>JSON.parse\<close> throws a \<open>SyntaxError\<close> with the
    message \<open>m\<close>. From Node 20 on the message quotes the text of the file, or the part
    of it around the position of the error.
  \<^item> \<open>Null\<close>: the JSON text \<open>null\<close>; reading \<open>data.ts\<close> throws a \<open>TypeError\<close>.
  \<^item> \<open>Unusable\<close>: any other JSON text. Nothing is thrown: the age is \<open>NaN\<close> and the
    comparison false, or \<open>process.kill\<close> rejects the \<open>pid\<close> and \<open>isPidAlive\<close> is false.
\<close>

datatype lockfile = Marker int int | Unparsable string | Null | Unusable

datatype fsop = Unlink | Write lockfile

text \<open>The lock path: the marker file, if it exists, and the file operations done so far.\<close>

record lock_fs =
  marker :: "lockfile option"
  ops :: "fsop list"

text \<open>
  The process and its surroundings: \<open>process.pid\<close>, the outcome of \<open>process.kill(pid, 0)\<close>
  (\<open>isPidAlive\<close>) and the two readings of \<open>Date.now()\<close>, the first for the age of the
  marker and the second for the new marker.
\<close>

record lock_env =
  my_pid :: int
  isPidAlive :: "int \<Rightarrow> bool"
  now_check :: int
  now_write :: int

definition unlinkSync :: "lock_fs \<Rightarrow> lock_fs" where
  "unlinkSync fs = fs\<lparr>marker := None, ops := ops fs @ [Unlink]\<rparr>"

definition writeFileSync :: "lockfile \<Rightarrow> lock_fs \<Rightarrow> lock_fs" where
  "writeFileSync d fs = fs\<lparr>marker := Some d, ops := ops fs @ [Write d]\<rparr>"

definition busy_error :: error where
  "busy_error = Error ''Another ingestion is running. Try again later.''"

text \<open>
  The \<open>try\<close> block of \<open>acquireLock\<close> on the content of the marker file: the error it
  throws, if any.
\<close>

definition null_read :: error where
  "null_read = TypeError (''Cannot read properties of null (reading '' @ [CHR 0x27] @ ''ts'' @ [CHR 0x27] @ '')'')"

definition try_block :: "lock_env \<Rightarrow> lockfile \<Rightarrow> error option" where
  "try_block env content =
     (case content of
        Unparsable m \<Rightarrow> Some (SyntaxError m)
      | Null \<Rightarrow> Some null_read
      | Unusable \<Rightarrow> None
      | Marker pid ts \<Rightarrow>
          (let age = now_check env - ts in
           if age < STALE_MS \<and> isPidAlive env pid then Some busy_error else None))"

text \<open>
  \<open>acquireLock\<close>. The result is the thrown error or the \<open>release\<close> function (\<open>Inr ()\<close>;
  \<open>release\<close> is modelled below), and the file system afterwards. The \<open>catch\<close> clause
  throws again every error whose message includes \<open>Another ingestion\<close>, whichever
  statement of the \<open>try\<close> block threw it.
\<close>

definition acquireLock :: "lock_env \<Rightarrow> lock_fs \<Rightarrow> (error + unit) \<times> lock_fs" where
  "acquireLock env fs =
     (case marker fs of
        None \<Rightarrow> (Inr (), writeFileSync (Marker (my_pid env) (now_write env)) fs)
      | Some content \<Rightarrow>
          (case try_block env content of
             Some err \<Rightarrow>
               if str_includes (message err) ''Another ingestion'' then (Inl err, fs)
               else (Inr (), writeFileSync (Marker (my_pid env) (now_write env)) (unlinkSync fs))
           | None \<Rightarrow> (Inr (), writeFileSync (Marker (my_pid env) (now_write env)) (unlinkSync fs))))"

text \<open>
  The marker file holding the text \<open>Another ingestion\<close>: on Node 20 and later
  \<open>JSON.parse\<close> throws on it the \<open>SyntaxError\<close> with the message
  \<^verbatim>\<open>Unexpected token 'A', "Another ingestion" is not valid JSON\<close>.
\<close>

definition quoting_message :: string where
  "quoting_message =
     ''Unexpected token '' @ [CHR 0x27] @ ''A'' @ [CHR 0x27] @ '', '' @ [CHR 0x22] @
     ''Another ingestion'' @ [CHR 0x22] @ '' is not valid JSON''"

text \<open>\<open>release\<close>: unlink the marker and ignore the error when it is already gone.\<close>

definition release :: "lock_fs \<Rightarrow> lock_fs" where
  "release fs = (if marker fs = None then fs else unlinkSync fs)"

section \<open>Embedding gateway (src/embed.js)\<close>

definition MAX_INPUT :: nat where "MAX_INPUT = 8000"
definition BATCH_SIZE :: nat where "BATCH_SIZE = 10"

text \<open>An embedding vector: a JavaScript array of numbers, read as reals.\<close>

type_synonym vec = "real list"

text \<open>
  The fields \<open>dim\<close>, \<open>provider\<close> and \<open>model\<close> are shared by a provider's result, a cache
  entry and the result of \<open>embedTexts\<close>. The \<open>embedding\<close> of an entry is \<open>None\<close> when it
  is \<open>undefined\<close> (the provider returned fewer vectors than texts).
\<close>

record embed_meta =
  dim :: nat
  provider :: string
  model :: string

record provider_result = embed_meta +
  vectors :: "vec list"

record entry = embed_meta +
  embedding :: "vec option"

record embed_result = embed_meta +
  embeddings :: "vec option list"

subsection \<open>LRU cache\<close>

text \<open>
  The \<open>Map\<close> of the cache in insertion order, oldest key first. The module keeps one
  cache of size 1000 for the life of the process; it is passed in and out here.
\<close>

type_synonym cache = "(string \<times> entry) list"

definition cache_max :: nat where "cache_max = 1000"

definition cache_delete :: "cache \<Rightarrow> string \<Rightarrow> cache" where
  "cache_delete c key = filter (\<lambda>kv. fst kv \<noteq> key) c"

definition cache_get :: "cache \<Rightarrow> string \<Rightarrow> entry option \<times> cache" where
  "cache_get c key =
     (case map_of c key of
        None \<Rightarrow> (None, c)
      | Some val \<Rightarrow> (Some val, cache_delete c key @ [(key, val)]))"

definition cache_set :: "cache \<Rightarrow> string \<Rightarrow> entry \<Rightarrow> cache" where
  "cache_set c key val =
     (if map_of c key \<noteq> None then cache_delete c key @ [(key, val)]
      else if length c \<ge> cache_max then tl c @ [(key, val)]
      else c @ [(key, val)])"

subsection \<open>The network\<close>

text \<open>
  The world outside the process. A key is \<open>True\<close> when the environment variable is set and
  not empty. \<open>gemini_fetch n texts\<close> is the outcome of one request to the first provider
  with the given (truncated) texts when \<open>n\<close> requests have been sent before it: \<open>Inl msg\<close>
  when the attempt throws (network failure, timeout, a status that is not 2xx, a body that
  is no JSON), \<open>Inr\<close> the \<open>values\<close> of the \<open>embeddings\<close> of the JSON body. \<open>openai_fetch\<close>
  is the same for the second provider, whose \<open>data\<close> items are pairs of \<open>index\<close> and
  \<open>embedding\<close>. The delays between attempts and batches are not modelled.
\<close>

record net_env =
  GEMINI_API_KEY :: bool
  OPENAI_API_KEY :: bool
  gemini_fetch :: "nat \<Rightarrow> string list \<Rightarrow> string + vec list"
  openai_fetch :: "nat \<Rightarrow> string list \<Rightarrow> string + (int \<times> vec) list"

text \<open>The requests sent so far: the provider and the texts of each.\<close>

type_synonym net_log = "(string \<times> string list) list"

text \<open>
  \<open>retry(fn, attempts, delays)\<close>: the loop from \<open>i\<close>. With no attempt left to make the loop
  ends and the function returns \<open>undefined\<close> (\<open>Inr None\<close>).
\<close>

function retry_from ::
  "nat \<Rightarrow> nat \<Rightarrow> (net_log \<Rightarrow> (error + 'a) \<times> net_log) \<Rightarrow> net_log \<Rightarrow> (error + 'a option) \<times> net_log"
where
  "retry_from attempts i fn w =
     (if i < attempts then
        (case fn w of
           (Inr r, w') \<Rightarrow> (Inr (Some r), w')
         | (Inl err, w') \<Rightarrow>
             if i = attempts - 1 then (Inl err, w') else retry_from attempts (i + 1) fn w')
      else (Inr None, w))"
  by pat_completeness auto
termination
  by (relation "measure (\<lambda>(attempts, i, fn, w). attempts - i)") auto

definition retry :: "(net_log \<Rightarrow> (error + 'a) \<times> net_log) \<Rightarrow> net_log \<Rightarrow> (error + 'a option) \<times> net_log" where
  "retry fn = retry_from 3 0 fn"

definition undefined_read :: error where
  "undefined_read = TypeError ''Cannot read properties of undefined''"

text \<open>One request to the first provider (the function passed to \<open>retry\<close>).\<close>

definition gemini_request :: "net_env \<Rightarrow> string list \<Rightarrow> net_log \<Rightarrow> (error + vec list) \<times> net_log" where
  "gemini_request env requests w =
     (case gemini_fetch env (length w) requests of
        Inl msg \<Rightarrow> (Inl (Error msg), w @ [(''google'', requests)])
      | Inr res \<Rightarrow> (Inr res, w @ [(''google'', requests)]))"

definition embedGemini :: "net_env \<Rightarrow> string list \<Rightarrow> net_log \<Rightarrow> (error + provider_result) \<times> net_log" where
  "embedGemini env texts w =
     (if \<not> GEMINI_API_KEY env then (Inl (Error ''GEMINI_API_KEY not set''), w)
      else
        (let requests = map (take MAX_INPUT) texts in
         case retry (gemini_request env requests) w of
           (Inl err, w') \<Rightarrow> (Inl err, w')
         | (Inr None, w') \<Rightarrow> (Inl undefined_read, w')
         | (Inr (Some res), w') \<Rightarrow>
             (case res of
                [] \<Rightarrow> (Inl undefined_read, w')
              | v # _ \<Rightarrow>
                  (Inr \<lparr>dim = length v, provider = ''google'', model = ''text-embedding-004'',
                        vectors = res\<rparr>, w'))))"

definition openai_request ::
  "net_env \<Rightarrow> string list \<Rightarrow> net_log \<Rightarrow> (error + (int \<times> vec) list) \<times> net_log" where
  "openai_request env input w =
     (case openai_fetch env (length w) input of
        Inl msg \<Rightarrow> (Inl (Error msg), w @ [(''openai'', input)])
      | Inr res \<Rightarrow> (Inr res, w @ [(''openai'', input)]))"

text \<open>\<open>res.data.sort((a, b) => a.index - b.index)\<close> is a stable sort on the index.\<close>

definition embedOpenAI :: "net_env \<Rightarrow> string list \<Rightarrow> net_log \<Rightarrow> (error + provider_result) \<times> net_log" where
  "embedOpenAI env texts w =
     (if \<not> OPENAI_API_KEY env then (Inl (Error ''OPENAI_API_KEY not set''), w)
      else
        (case retry (openai_request env (map (take MAX_INPUT) texts)) w of
           (Inl err, w') \<Rightarrow> (Inl err, w')
         | (Inr None, w') \<Rightarrow> (Inl undefined_read, w')
         | (Inr (Some res), w') \<Rightarrow>
             (let sorted = sort_key fst res in
              case sorted of
                [] \<Rightarrow> (Inl undefined_read, w')
              | d # _ \<Rightarrow>
                  (Inr \<lparr>dim = length (snd d), provider = ''openai'',
                        model = ''text-embedding-3-small'', vectors = map snd sorted\<rparr>, w'))))"

subsection \<open>embedTexts\<close>

text \<open>
  The first loop, round \<open>i\<close>, on the state \<open>(results, uncached, uncachedIdx, cache)\<close>.
  \<open>results\<close> is the array of \<open>texts.length\<close> slots, \<open>None\<close> for a slot not yet written.
\<close>

definition scan_step ::
  "string list \<Rightarrow> entry option list \<times> string list \<times> nat list \<times> cache \<Rightarrow> nat \<Rightarrow>
   entry option list \<times> string list \<times> nat list \<times> cache" where
  "scan_step texts st i =
     (case st of (results, uncached, uncachedIdx, cache) \<Rightarrow>
        (case cache_get cache (texts ! i) of
           (Some cached, cache') \<Rightarrow> (results[i := Some cached], uncached, uncachedIdx, cache')
         | (None, cache') \<Rightarrow> (results, uncached @ [texts ! i], uncachedIdx @ [i], cache')))"

text \<open>\<open>xs[j]\<close> on an array: \<open>undefined\<close> past its end.\<close>

definition nth_opt :: "'a list \<Rightarrow> nat \<Rightarrow> 'a option" where
  "nth_opt xs j = (if j < length xs then Some (xs ! j) else None)"

text \<open>
  The try/catch of one batch: the first provider, on its failure the second provider with
  the same batch, on its failure too the combined error.
\<close>

definition combined_message :: "error \<Rightarrow> error \<Rightarrow> string" where
  "combined_message geminiErr openaiErr =
     ''Embedding failed.'' @ [CHR 0x0A] @ ''  Gemini: '' @ message geminiErr @
     [CHR 0x0A] @ ''  OpenAI: '' @ message openaiErr"

definition embed_batch :: "net_env \<Rightarrow> string list \<Rightarrow> net_log \<Rightarrow> (error + provider_result) \<times> net_log" where
  "embed_batch env batch w =
     (case embedGemini env batch w of
        (Inr result, w1) \<Rightarrow> (Inr result, w1)
      | (Inl geminiErr, w1) \<Rightarrow>
          (case embedOpenAI env batch w1 of
             (Inr result, w2) \<Rightarrow> (Inr result, w2)
           | (Inl openaiErr, w2) \<Rightarrow> (Inl (Error (combined_message geminiErr openaiErr)), w2)))"

text \<open>
  Round \<open>j\<close> of the loop that stores a batch's result; \<open>j\<close> is below the length of
  \<open>batch\<close>, which is the length of \<open>batchIdxs\<close>.
\<close>

definition store_step ::
  "string list \<Rightarrow> nat list \<Rightarrow> provider_result \<Rightarrow> entry option list \<times> cache \<Rightarrow> nat \<Rightarrow>
   entry option list \<times> cache" where
  "store_step batch batchIdxs result st j =
     (case st of (results, cache) \<Rightarrow>
        (let entry = \<lparr>dim = dim result, provider = provider result, model = model result,
                      embedding = nth_opt (vectors result) j\<rparr>
         in (results[batchIdxs ! j := Some entry], cache_set cache (batch ! j) entry)))"

definition embedding_of :: "entry option \<Rightarrow> vec option" where
  "embedding_of r = (case r of None \<Rightarrow> None | Some e \<Rightarrow> embedding e)"

text \<open>
  The loop over the batches, from offset \<open>b\<close>. It is entered with \<open>uncached\<close> not empty
  (the function returned before otherwise), so the test \<open>b < uncached.length\<close> holds on
  entry and is made here after each round. The values of \<open>provider\<close>, \<open>model\<close> and \<open>dim\<close>
  at the end are those of the last batch. A throw leaves the cache as the earlier batches
  made it.
\<close>

function batch_loop ::
  "net_env \<Rightarrow> string list \<Rightarrow> nat list \<Rightarrow> nat \<Rightarrow> entry option list \<Rightarrow> cache \<Rightarrow> net_log \<Rightarrow>
   (error + embed_result) \<times> cache \<times> net_log" where
  "batch_loop env uncached uncachedIdx b results cache w =
     (let batch = take BATCH_SIZE (drop b uncached);
          batchIdxs = take BATCH_SIZE (drop b uncachedIdx)
      in case embed_batch env batch w of
           (Inl err, w') \<Rightarrow> (Inl err, cache, w')
         | (Inr result, w') \<Rightarrow>
             (case foldl (store_step batch batchIdxs result) (results, cache) [0 ..< length batch] of
                (results', cache') \<Rightarrow>
                  if b + BATCH_SIZE < length uncached
                  then batch_loop env uncached uncachedIdx (b + BATCH_SIZE) results' cache' w'
                  else (Inr \<lparr>dim = dim result, provider = provider result, model = model result,
                             embeddings = map embedding_of results'\<rparr>, cache', w')))"
  by pat_completeness auto
termination
  by (relation "measure (\<lambda>(env, uncached, uncachedIdx, b, results, cache, w). length uncached - b)")
     (auto simp: BATCH_SIZE_def)

definition embedTexts ::
  "net_env \<Rightarrow> string list \<Rightarrow> cache \<times> net_log \<Rightarrow> (error + embed_result) \<times> cache \<times> net_log" where
  "embedTexts env texts st =
     (case st of (cache0, w) \<Rightarrow>
        (case foldl (scan_step texts) (replicate (length texts) None, [], [], cache0)
                [0 ..< length texts] of
           (results, uncached, uncachedIdx, cache) \<Rightarrow>
             if length uncached = 0 then
               (case results of
                  [] \<Rightarrow> (Inl undefined_read, cache, w)
                | None # _ \<Rightarrow> (Inl undefined_read, cache, w)
                | Some r0 # _ \<Rightarrow>
                    (Inr \<lparr>dim = dim r0, provider = provider r0, model = model r0,
                          embeddings = map embedding_of results\<rparr>, cache, w))
             else batch_loop env uncached uncachedIdx 0 results cache w))"

text \<open>\<open>embedQuery\<close>: \<open>embedTexts\<close> on the one text, and the first embedding of the result.\<close>

definition embedQuery ::
  "net_env \<Rightarrow> string \<Rightarrow> cache \<times> net_log \<Rightarrow> (error + entry) \<times> cache \<times> net_log" where
  "embedQuery env text st =
     (case embedTexts env [text] st of
        (Inl err, st') \<Rightarrow> (Inl err, st')
      | (Inr result, st') \<Rightarrow>
          (Inr \<lparr>dim = dim result, provider = provider result, model = model result,
                embedding = (case nth_opt (embeddings result) 0 of None \<Rightarrow> None | Some v \<Rightarrow> v)\<rparr>, st'))"

subsection \<open>Two scripted networks\<close>

text \<open>
  \<open>primary_down_then_up\<close>: the first provider fails on the first three requests and
  answers vectors of length 2 afterwards; the second provider answers vectors of length 3
  (its items in reverse order of index). \<open>primary_up_then_down\<close>: the first provider
  answers the first request only.
\<close>

definition primary_down_then_up :: net_env where
  "primary_down_then_up =
     \<lparr>GEMINI_API_KEY = True, OPENAI_API_KEY = True,
      gemini_fetch = (\<lambda>n ts. if n < 3 then Inl ''Gemini API 503: '' else Inr (map (\<lambda>t. [1, 2]) ts)),
      openai_fetch = (\<lambda>n ts. Inr (rev (map (\<lambda>i. (int i, [1, 2, 3])) [0 ..< length ts])))\<rparr>"

definition primary_up_then_down :: net_env where
  "primary_up_then_down =
     \<lparr>GEMINI_API_KEY = True, OPENAI_API_KEY = True,
      gemini_fetch = (\<lambda>n ts. if n = 0 then Inr (map (\<lambda>t. [1, 2]) ts) else Inl ''Gemini API 503: ''),
      openai_fetch = (\<lambda>n ts. Inr (rev (map (\<lambda>i. (int i, [1, 2, 3])) [0 ..< length ts])))\<rparr>"

text \<open>Eleven texts, \<open>t0\<close> to \<open>t10\<close>: one full batch and a second batch of one.\<close>

definition eleven_texts :: "string list" where
  "eleven_texts = map (\<lambda>i. ''t'' @ replicate i CHR ''x'') [0 ..< 11]"

text \<open>\<open>all_down\<close>: both keys are set and every request to either provider fails.\<close>

definition all_down :: net_env where
  "all_down =
     \<lparr>GEMINI_API_KEY = True, OPENAI_API_KEY = True,
      gemini_fetch = (\<lambda>n ts. Inl ''Gemini API 503: ''),
      openai_fetch = (\<lambda>n ts. Inl ''OpenAI API 500: '')\<rparr>"

text \<open>
  \<open>cache_demo_net\<close>: the first provider fails once and then answers, for each text, the
  vector holding the text's length; the second provider would answer the same, with its
  items in order of index. \<open>cache_demo\<close> is a cache that holds the text \<open>b\<close>.
\<close>

definition text_length_vec :: "string \<Rightarrow> vec" where
  "text_length_vec t = [real (length t)]"

definition cache_demo_net :: net_env where
  "cache_demo_net =
     \<lparr>GEMINI_API_KEY = True, OPENAI_API_KEY = True,
      gemini_fetch = (\<lambda>n ts. if n = 0 then Inl ''Gemini API 503: '' else Inr (map text_length_vec ts)),
      openai_fetch = (\<lambda>n ts. Inr (zip (map int [0 ..< length ts]) (map text_length_vec ts)))\<rparr>"

definition cache_demo :: cache where
  "cache_demo = [(''b'', \<lparr>dim = 1, provider = ''google'', model = ''text-embedding-004'',
                          embedding = Some [7]\<rparr>)]"

text \<open>
  \<open>second_batch_down\<close>: the first provider fails on every request of fewer than ten
  texts and answers the other requests; the second provider fails on every request. Of the eleven texts,
  the first batch is embedded and the second batch fails at both providers.
\<close>

definition second_batch_down :: net_env where
  "second_batch_down =
     \<lparr>GEMINI_API_KEY = True, OPENAI_API_KEY = True,
      gemini_fetch = (\<lambda>n ts. if length ts < 10 then Inl ''Gemini API 503: ''
                              else Inr (map (\<lambda>t. [1, 2]) ts)),
      openai_fetch = (\<lambda>n ts. Inl ''OpenAI API 500: '')\<rparr>"

subsection \<open>Vocabulary for the gateway's properties\<close>

text \<open>The texts of a call that the cache does not hold when the call starts, and their positions.\<close>

definition uncached_of :: "cache \<Rightarrow> string list \<Rightarrow> string list" where
  "uncached_of c texts = filter (\<lambda>t. map_of c t = None) texts"

definition uncached_idx_of :: "cache \<Rightarrow> string list \<Rightarrow> nat list" where
  "uncached_idx_of c texts = filter (\<lambda>i. map_of c (texts ! i) = None) [0 ..< length texts]"

text \<open>
  The providers answer in line with an embedding function \<open>E\<close>: a successful answer of the
  first provider lists the vectors of the request's texts in the request's order, and a
  successful answer of the second provider does so once its items are sorted by index.
\<close>

definition aligned :: "net_env \<Rightarrow> (string \<Rightarrow> vec) \<Rightarrow> bool" where
  "aligned env E \<longleftrightarrow>
     (\<forall>n ts vs. gemini_fetch env n ts = Inr vs \<longrightarrow> vs = map E ts) \<and>
     (\<forall>n ts d. openai_fetch env n ts = Inr d \<longrightarrow> map snd (sort_key fst d) = map E ts)"

section \<open>URL normalizer (src/normalize.js)\<close>

definition TRACKING_PARAMS :: "string set" where
  "TRACKING_PARAMS =
     {''utm_source'', ''utm_medium'', ''utm_campaign'', ''utm_term'', ''utm_content'',
      ''fbclid'', ''igshid'', ''ref'', ''s'', ''t''}"

text \<open>
  The platform's \<open>URL\<close> object of an HTTP(S) URL, as far as the normalizer reads and writes
  it: \<open>protocol\<close> with its colon, the credentials, \<open>hostname\<close>, \<open>port\<close> (empty for the
  scheme's default), \<open>pathname\<close>, and the name-value pairs of \<open>searchParams\<close> (decoded).
  The fragment is not kept: the normalizer only clears it.
\<close>

record url =
  protocol :: string
  username :: string
  password :: string
  hostname :: string
  port :: string
  pathname :: string
  searchParams :: "(string \<times> string) list"

text \<open>
  The serializer of \<open>application/x-www-form-urlencoded\<close>, which writes the query after a
  change of \<open>searchParams\<close>: letters, digits and \<open>*-._\<close> stay, a space becomes \<open>+\<close>, any
  other byte of the UTF-8 form becomes \<open>%\<close> and two upper-case hexadecimal digits.
\<close>

definition hex_digit :: "nat \<Rightarrow> char" where
  "hex_digit n = ''0123456789ABCDEF'' ! (n mod 16)"

definition percent_byte :: "nat \<Rightarrow> string" where
  "percent_byte n = [CHR ''%'', hex_digit (n div 16), hex_digit n]"

definition form_unreserved :: "char \<Rightarrow> bool" where
  "form_unreserved c \<longleftrightarrow>
     (let n = (of_char c :: nat) in
      (48 \<le> n \<and> n \<le> 57) \<or> (65 \<le> n \<and> n \<le> 90) \<or> (97 \<le> n \<and> n \<le> 122) \<or>
      c \<in> set ''*-._'')"

definition form_encode_char :: "char \<Rightarrow> string" where
  "form_encode_char c =
     (let n = (of_char c :: nat) in
      if form_unreserved c then [c]
      else if c = CHR '' '' then ''+''
      else if n < 128 then percent_byte n
      else percent_byte (192 + n div 64) @ percent_byte (128 + n mod 64))"

definition form_encode :: "string \<Rightarrow> string" where
  "form_encode s = concat (map form_encode_char s)"

fun join_amp :: "string list \<Rightarrow> string" where
  "join_amp [] = []"
| "join_amp [x] = x"
| "join_amp (x # y # ys) = x @ ''&'' @ join_amp (y # ys)"

definition serialize_params :: "(string \<times> string) list \<Rightarrow> string" where
  "serialize_params ps = join_amp (map (\<lambda>kv. form_encode (fst kv) @ ''='' @ form_encode (snd kv)) ps)"

text \<open>
  \<open>u.toString()\<close> once \<open>searchParams.sort()\<close> has rewritten the query from the pairs and
  \<open>u.hash = ''\<close> has removed the fragment; an empty list of pairs leaves no query.
\<close>

definition href :: "url \<Rightarrow> string" where
  "href u =
     protocol u @ ''//'' @
     (if username u \<noteq> [] \<or> password u \<noteq> []
      then username u @ (if password u \<noteq> [] then '':'' @ password u else []) @ ''@'' else []) @
     hostname u @
     (if port u \<noteq> [] then '':'' @ port u else []) @
     pathname u @
     (if searchParams u = [] then [] else ''?'' @ serialize_params (searchParams u))"

text \<open>\<open>hostname.replace(/^www\./, '')\<close>: the pattern has no flag.\<close>

definition strip_www :: "string \<Rightarrow> string" where
  "strip_www h = (if prefix ''www.'' h then drop 4 h else h)"

text \<open>
  The \<open>hostname\<close> setter. The values the normalizer assigns are \<open>x.com\<close> and a host without
  its leading \<open>www.\<close>; the setter ignores an empty value and is taken to accept the others.
\<close>

definition set_hostname :: "string \<Rightarrow> url \<Rightarrow> url" where
  "set_hostname h u = (if h = [] then u else u\<lparr>hostname := h\<rparr>)"

text \<open>The \<open>URL\<close> object after the normalizer's changes.\<close>

definition normalized :: "url \<Rightarrow> url" where
  "normalized u0 =
     (let u1 = set_hostname (strip_www (hostname u0)) u0;
          u2 = (if hostname u1 = ''twitter.com'' then set_hostname ''x.com'' u1 else u1);
          kept = filter (\<lambda>kv. fst kv \<notin> TRACKING_PARAMS) (searchParams u2)
      in u2\<lparr>searchParams := sort_key fst kept\<rparr>)"

text \<open>
  \<open>normalizeUrl\<close>. \<open>URL_new\<close> is the platform's constructor \<open>new URL(raw)\<close>: \<open>None\<close> when it
  throws. The argument is a string (\<open>!raw\<close> holds for the empty one). \<open>searchParams.sort()\<close>
  sorts the pairs by name, by code units, and keeps the order of pairs of one name.
\<close>

definition normalizeUrl :: "(string \<Rightarrow> url option) \<Rightarrow> string \<Rightarrow> string" where
  "normalizeUrl URL_new raw =
     (if raw = [] \<or> \<not> HTTP_RE raw then raw
      else (case URL_new raw of
              None \<Rightarrow> raw
            | Some u0 \<Rightarrow>
                (let u = normalized u0; out = href u
                 in if suffix ''/'' out \<and> pathname u \<noteq> ''/'' then butlast out else out)))"

subsection \<open>The platform's URL parser on plain URLs\<close>

text \<open>
  \<open>URL_plain\<close> is \<open>new URL(raw)\<close> on plain HTTP(S) URLs, written from the URL Standard:
  \<open>http\<close> or \<open>https\<close> in any letter case, \<open>://\<close>, a host of letters, digits, dots and
  hyphens (lower-cased by the parser), a path of unreserved characters without dot
  segments, a query of names and values of unreserved characters, and any fragment. An
  empty path is \<open>/\<close>. On these strings it gives the components the platform gives; it
  answers \<open>None\<close> for every other string, so it stands for the platform only where it
  answers \<open>Some\<close> (and on \<open>https://\<close>, which the platform rejects too, for its empty host).
  Left out, among others: credentials, ports, percent escapes, hosts that are numbers or
  carry \<open>xn--\<close> labels.
\<close>

definition is_alnum :: "char \<Rightarrow> bool" where
  "is_alnum c \<longleftrightarrow>
     (let n = (of_char c :: nat) in
      (48 \<le> n \<and> n \<le> 57) \<or> (65 \<le> n \<and> n \<le> 90) \<or> (97 \<le> n \<and> n \<le> 122))"

text \<open>\<open>split_on c s\<close>: the pieces of \<open>s\<close> between the occurrences of \<open>c\<close>.\<close>

fun split_on :: "char \<Rightarrow> string \<Rightarrow> string list" where
  "split_on c [] = [[]]"
| "split_on c (x # xs) =
     (case split_on c xs of
        [] \<Rightarrow> [[x]]
      | p # ps \<Rightarrow> if x = c then [] # p # ps else (x # p) # ps)"

definition plain_host :: "string \<Rightarrow> bool" where
  "plain_host h \<longleftrightarrow>
     h \<noteq> [] \<and> list_all (\<lambda>c. is_alnum c \<or> c = CHR ''.'' \<or> c = CHR ''-'') h \<and>
     list_all (\<lambda>l. l \<noteq> [] \<and> \<not> prefix ''xn--'' (map js_lower l)) (split_on CHR ''.'' h) \<and>
     \<not> js_digit (hd (last (split_on CHR ''.'' h)))"

definition plain_path :: "string \<Rightarrow> bool" where
  "plain_path p \<longleftrightarrow>
     list_all (\<lambda>c. is_alnum c \<or> c \<in> set ''/_~.-'') p \<and>
     list_all (\<lambda>seg. seg \<noteq> ''.'' \<and> seg \<noteq> ''..'') (split_on CHR ''/'' p)"

definition plain_query :: "string \<Rightarrow> bool" where
  "plain_query q \<longleftrightarrow> list_all (\<lambda>c. is_alnum c \<or> c \<in> set ''_.*-=&'') q"

text \<open>The pairs of a query string: the non-empty pieces between \<open>&\<close>, each cut at its first \<open>=\<close>.\<close>

definition parse_query :: "string \<Rightarrow> (string \<times> string) list" where
  "parse_query q =
     map (\<lambda>piece. (takeWhile (\<lambda>c. c \<noteq> CHR ''='') piece,
                    drop 1 (dropWhile (\<lambda>c. c \<noteq> CHR ''='') piece)))
       (filter (\<lambda>piece. piece \<noteq> []) (split_on CHR ''&'' q))"

definition URL_plain :: "string \<Rightarrow> url option" where
  "URL_plain raw =
     (let scheme = takeWhile (\<lambda>c. c \<noteq> CHR '':'') raw;
          rest = drop (length scheme + 3) raw;
          host = takeWhile (\<lambda>c. c \<notin> set ''/?#'') rest;
          after_host = drop (length host) rest;
          path = takeWhile (\<lambda>c. c \<notin> set ''?#'') after_host;
          after_path = drop (length path) after_host;
          query = (if prefix ''?'' after_path
                   then takeWhile (\<lambda>c. c \<noteq> CHR ''#'') (drop 1 after_path) else [])
      in if (map js_lower scheme = ''http'' \<or> map js_lower scheme = ''https'') \<and>
            take 3 (drop (length scheme) raw) = ''://'' \<and>
            plain_host host \<and> plain_path path \<and> plain_query query
         then Some \<lparr>protocol = map js_lower scheme @ '':'', username = [], password = [],
                     hostname = map js_lower host, port = [],
                     pathname = (if path = [] then ''/'' else path),
                     searchParams = parse_query query\<rparr>
         else None)"

section \<open>Durable store (src/db.js)\<close>

text \<open>
  The rows of the tables \<open>sources\<close> and \<open>chunks\<close> (\<open>source_rows\<close> and \<open>chunk_rows\<close> of
  a \<open>db\<close>), with the columns ingestion writes
  (\<open>s_\<close> and \<open>c_\<close> stand before the column names, \<open>id\<close> being a function of HOL). The
  metadata is kept as the object itself, not as its JSON text, and the embedding as the
  vector, not as its bytes: \<open>serializeEmbedding\<close> of \<open>undefined\<close> is the empty array, and
  rounding to 32-bit floats is not modelled.
\<close>

type_synonym metadata = "(string \<times> string) list"

record source_row =
  s_id :: string
  s_url :: string
  s_title :: string
  s_source_type :: string
  s_raw_content :: string
  s_content_hash :: "string option"
  s_metadata :: metadata
  s_created_at :: string

record chunk_row =
  c_id :: string
  c_source_id :: string
  c_chunk_index :: nat
  c_content :: string
  c_embedding :: vec
  c_embedding_dim :: nat
  c_embedding_provider :: "string option"
  c_embedding_model :: "string option"
  c_created_at :: string

record db =
  source_rows :: "source_row list"
  chunk_rows :: "chunk_row list"

definition serializeEmbedding :: "vec option \<Rightarrow> vec" where
  "serializeEmbedding arr = (case arr of None \<Rightarrow> [] | Some v \<Rightarrow> v)"

definition deserializeEmbedding :: "vec \<Rightarrow> vec" where
  "deserializeEmbedding buf = buf"

definition constraint_error :: error where
  "constraint_error = Error ''SQLITE_CONSTRAINT''"

text \<open>
  The two \<open>INSERT\<close> statements under the schema's constraints: \<open>sources.id\<close> and
  \<open>chunks.id\<close> are primary keys, \<open>content_hash\<close> is unique where it is not null, and a
  chunk's \<open>source_id\<close> refers to a source.
\<close>

definition insertSource :: "source_row \<Rightarrow> db \<Rightarrow> error + db" where
  "insertSource row d =
     (if list_ex (\<lambda>r. s_id r = s_id row \<or>
            (s_content_hash row \<noteq> None \<and> s_content_hash r = s_content_hash row)) (source_rows d)
      then Inl constraint_error
      else Inr (d\<lparr>source_rows := source_rows d @ [row]\<rparr>))"

definition insertChunk :: "chunk_row \<Rightarrow> db \<Rightarrow> error + db" where
  "insertChunk row d =
     (if list_ex (\<lambda>c. c_id c = c_id row) (chunk_rows d) \<or>
         \<not> list_ex (\<lambda>r. s_id r = c_source_id row) (source_rows d)
      then Inl constraint_error
      else Inr (d\<lparr>chunk_rows := chunk_rows d @ [row]\<rparr>))"

text \<open>
  \<open>db.transaction(fn)()\<close>: the writes of \<open>fn\<close> are kept when it returns and undone when it
  throws, and the error is thrown on.
\<close>

definition transaction :: "(db \<Rightarrow> (error + db) \<times> 'a) \<Rightarrow> db \<Rightarrow> (error + unit) \<times> db \<times> 'a" where
  "transaction fn d =
     (case fn d of
        (Inl e, x) \<Rightarrow> (Inl e, d, x)
      | (Inr d', x) \<Rightarrow> (Inr (), d', x))"

section \<open>Ingestion (ingest.js, src/unnamed/part_000)\<close>

record extraction =
  e_title :: string
  e_content :: string
  e_metadata :: metadata

text \<open>
  What ingestion takes from outside: the platform's URL constructor, the extraction
  collaborator (it can throw), the content validator (\<open>None\<close> when the content is valid,
  the reason otherwise; it is a pure function of \<open>src/validate.js\<close> that the properties
  below do not depend on), SHA-256 as hexadecimal text, the values of successive calls of
  \<open>randomUUID()\<close>, the time as ISO text, and the network of the embedding gateway.
\<close>

record ingest_env =
  new_URL :: "string \<Rightarrow> url option"
  extractContent :: "string \<Rightarrow> string \<Rightarrow> error + extraction"
  validateContent :: "string \<Rightarrow> string \<Rightarrow> metadata \<Rightarrow> string option"
  sha256_hex :: "string \<Rightarrow> string"
  randomUUID :: "nat \<Rightarrow> string"
  now_iso :: string
  net :: net_env

text \<open>The state of the process and of the store; \<open>uuids\<close> counts the calls of \<open>randomUUID()\<close>.\<close>

record sys =
  store :: db
  cache_of :: cache
  requests :: net_log
  uuids :: nat

definition truncateContent :: "string \<Rightarrow> string" where
  "truncateContent content = (if length content > 200000 then take 200000 content else content)"

text \<open>
  What \<open>_ingest\<close> returns: a status with a message, or a status with the stored source
  (the fields \<open>sourceId\<close>, \<open>title\<close>, \<open>sourceType\<close>, \<open>chunks\<close>, \<open>provider\<close>, \<open>metadata\<close>).
\<close>

record stored =
  o_sourceId :: string
  o_title :: string
  o_sourceType :: string
  o_chunks :: nat
  o_provider :: "string option"
  o_metadata :: metadata

datatype outcome = Stopped string string | Stored string stored

text \<open>
  The embedding step of \<open>_ingest\<close> (\<open>embeddings\<close>, \<open>dim\<close>, \<open>provider\<close>, \<open>model\<close>): the
  gateway is called only when there are chunks.
\<close>

definition embed_chunks ::
  "net_env \<Rightarrow> string list \<Rightarrow> cache \<times> net_log \<Rightarrow>
   (error + vec option list \<times> nat \<times> string option \<times> string option) \<times> cache \<times> net_log" where
  "embed_chunks env chunks st =
     (if length chunks > 0 then
        (case embedTexts env chunks st of
           (Inl e, st') \<Rightarrow> (Inl e, st')
         | (Inr result, st') \<Rightarrow>
             (Inr (embeddings result, dim result, Some (provider result), Some (model result)), st'))
      else (Inr ([], 0, None, None), st))"

text \<open>The loop of the transaction, from chunk \<open>i\<close>; \<open>n\<close> counts the calls of \<open>randomUUID()\<close>.\<close>

fun insert_chunks ::
  "ingest_env \<Rightarrow> string \<Rightarrow> vec option list \<Rightarrow> nat \<Rightarrow> string option \<Rightarrow> string option \<Rightarrow>
   nat \<Rightarrow> string list \<Rightarrow> db \<Rightarrow> nat \<Rightarrow> (error + db) \<times> nat" where
  "insert_chunks env sid embs dm prov mdl i [] d n = (Inr d, n)"
| "insert_chunks env sid embs dm prov mdl i (chunk # rest) d n =
     (case insertChunk
             \<lparr>c_id = randomUUID env n, c_source_id = sid, c_chunk_index = i, c_content = chunk,
              c_embedding = serializeEmbedding (case nth_opt embs i of None \<Rightarrow> None | Some v \<Rightarrow> v),
              c_embedding_dim = dm, c_embedding_provider = prov, c_embedding_model = mdl,
              c_created_at = now_iso env\<rparr> d of
        Inl e \<Rightarrow> (Inl e, Suc n)
      | Inr d' \<Rightarrow> insert_chunks env sid embs dm prov mdl (Suc i) rest d' (Suc n))"

definition quoted :: "string \<Rightarrow> string" where
  "quoted s = [CHR 0x22] @ s @ [CHR 0x22]"

text \<open>
  The last step of \<open>_ingest\<close>: the identifiers are drawn, the source row and the chunk
  rows are written in one transaction, and the outcome is returned.
\<close>

definition commit ::
  "ingest_env \<Rightarrow> string \<Rightarrow> string \<Rightarrow> extraction \<Rightarrow> string \<Rightarrow> string option \<Rightarrow> string list \<Rightarrow>
   vec option list \<times> nat \<times> string option \<times> string option \<Rightarrow> sys \<Rightarrow> (error + outcome) \<times> sys" where
  "commit env url sourceType ex content contentHash chunks emb s =
     (case emb of (embs, dm, prov, mdl) \<Rightarrow>
        (let sourceId = randomUUID env (uuids s);
             row = \<lparr>s_id = sourceId, s_url = url, s_title = e_title ex,
                    s_source_type = sourceType, s_raw_content = content,
                    s_content_hash = contentHash, s_metadata = e_metadata ex,
                    s_created_at = now_iso env\<rparr>;
             tx = (\<lambda>d. case insertSource row d of
                         Inl e \<Rightarrow> (Inl e, Suc (uuids s))
                       | Inr d' \<Rightarrow>
                           insert_chunks env sourceId embs dm prov mdl 0 chunks d' (Suc (uuids s)))
         in case transaction tx (store s) of
              (Inl e, d', n) \<Rightarrow> (Inl e, s\<lparr>store := d', uuids := n\<rparr>)
            | (Inr u, d', n) \<Rightarrow>
                (Inr (Stored (if length content > 0 then ''ok'' else ''pending_transcript'')
                        \<lparr>o_sourceId = sourceId, o_title = e_title ex, o_sourceType = sourceType,
                         o_chunks = length chunks,
                         o_provider =
                           (case mdl of None \<Rightarrow> None
                            | Some m \<Rightarrow> Some ((case prov of None \<Rightarrow> ''null'' | Some p \<Rightarrow> p) @ ''/'' @ m)),
                         o_metadata = e_metadata ex\<rparr>),
                 s\<lparr>store := d', uuids := n\<rparr>)))"

text \<open>\<open>_ingest\<close> from the validation of the extracted content on.\<close>

definition ingest_content ::
  "ingest_env \<Rightarrow> string \<Rightarrow> string \<Rightarrow> extraction \<Rightarrow> sys \<Rightarrow> (error + outcome) \<times> sys" where
  "ingest_content env url sourceType ex s =
     (let content = truncateContent (e_content ex);
          validation = validateContent env content sourceType (e_metadata ex);
          contentHash = (if length content > 0 then Some (sha256_hex env content) else None);
          hashDup = (if length content > 0
                     then find (\<lambda>r. s_content_hash r = contentHash) (source_rows (store s))
                     else None);
          chunks = (if length content > 0 then chunkText content else [])
      in if validation \<noteq> None \<and> length content > 0
         then (Inr (Stopped ''invalid'' (case validation of None \<Rightarrow> [] | Some reason \<Rightarrow> reason)), s)
         else (case hashDup of
                 Some dup \<Rightarrow>
                   (Inr (Stopped ''duplicate_content''
                          (''Same content exists: '' @ quoted (s_title dup) @
                           '' ('' @ s_url dup @ '')'')), s)
               | None \<Rightarrow>
                   (case embed_chunks (net env) chunks (cache_of s, requests s) of
                      (Inl e, c', w') \<Rightarrow> (Inl e, s\<lparr>cache_of := c', requests := w'\<rparr>)
                    | (Inr emb, c', w') \<Rightarrow>
                        commit env url sourceType ex content contentHash chunks emb
                          (s\<lparr>cache_of := c', requests := w'\<rparr>))))"

text \<open>\<open>_ingest\<close>.\<close>

definition ingest_body :: "ingest_env \<Rightarrow> string \<Rightarrow> sys \<Rightarrow> (error + outcome) \<times> sys" where
  "ingest_body env rawUrl s =
     (let url = normalizeUrl (new_URL env) rawUrl;
          sourceType = detectSourceType (Some url)
      in case find (\<lambda>r. s_url r = url) (source_rows (store s)) of
           Some existing \<Rightarrow>
             (Inr (Stopped ''duplicate_url''
                    (''Already ingested: '' @ quoted (s_title existing) @
                     '' ('' @ s_id existing @ '')'')), s)
         | None \<Rightarrow>
             (case extractContent env url sourceType of
                Inl e \<Rightarrow> (Inl e, s)
              | Inr ex \<Rightarrow> ingest_content env url sourceType ex s))"

text \<open>\<open>ingest\<close>: \<open>_ingest\<close> between taking the lock and releasing it, on every way out.\<close>

definition ingest ::
  "lock_env \<Rightarrow> ingest_env \<Rightarrow> string \<Rightarrow> lock_fs \<times> sys \<Rightarrow> (error + outcome) \<times> lock_fs \<times> sys" where
  "ingest lenv env rawUrl st =
     (case st of (fs, s) \<Rightarrow>
        (case acquireLock lenv fs of
           (Inl e, fs') \<Rightarrow> (Inl e, fs', s)
         | (Inr u, fs') \<Rightarrow>
             (case ingest_body env rawUrl s of (r, s') \<Rightarrow> (r, release fs', s'))))"

subsection \<open>A scripted run of ingestion\<close>

text \<open>
  \<open>demo_env\<close>: extraction always returns one short note, every content is valid, and the
  network is \<open>cache_demo_net\<close>; \<open>empty_sys\<close> is the empty store with an empty cache.
\<close>

definition demo_env :: ingest_env where
  "demo_env =
     \<lparr>new_URL = URL_plain,
      extractContent = (\<lambda>u t. Inr \<lparr>e_title = ''Title'', e_content = ''Hello world. This is a test.'',
                                   e_metadata = []\<rparr>),
      validateContent = (\<lambda>c t m. None),
      sha256_hex = (\<lambda>c. ''hash:'' @ c),
      randomUUID = (\<lambda>n. ''uuid-'' @ replicate n CHR ''i''),
      now_iso = ''2024-01-01T00:00:00.000Z'',
      net = cache_demo_net\<rparr>"

definition empty_sys :: sys where
  "empty_sys = \<lparr>store = \<lparr>source_rows = [], chunk_rows = []\<rparr>, cache_of = [], requests = [], uuids = 0\<rparr>"

section \<open>Retrieval scorer (src/retrieve.js)\<close>

text \<open>
  \<open>cosineSimilarity(a, b)\<close> on real numbers. The loop runs over the indices of \<open>a\<close>; a
  read past the end of \<open>b\<close> is \<open>undefined\<close> and makes the sums, and so the result,
  \<open>NaN\<close>: \<open>None\<close>. The floating-point rounding of the sums is not modelled.
\<close>

definition cosineSimilarity :: "vec \<Rightarrow> vec \<Rightarrow> real option" where
  "cosineSimilarity a b =
     (if length b < length a then None
      else
        (let dot = (\<Sum>i\<leftarrow>[0 ..< length a]. a ! i * b ! i);
             magA = (\<Sum>i\<leftarrow>[0 ..< length a]. a ! i * a ! i);
             magB = (\<Sum>i\<leftarrow>[0 ..< length a]. b ! i * b ! i);
             denom = sqrt magA * sqrt magB
         in Some (if denom = 0 then 0 else dot / denom)))"

text \<open>A row of the query (a chunk joined with its source) with its score, and a result.\<close>

type_synonym scored = "chunk_row \<times> source_row \<times> real"

record result =
  r_source_id :: string
  r_chunk_id :: string
  r_chunk_index :: nat
  r_score :: real
  r_excerpt :: string
  r_url :: string
  r_title :: string
  r_source_type :: string
  r_metadata :: metadata

text \<open>The horizontal ellipsis U+2026, one character of the excerpt, written as its UTF-8 bytes.\<close>

definition ellipsis :: string where
  "ellipsis = [CHR 0xE2, CHR 0x80, CHR 0xA6]"

definition make_result :: "scored \<Rightarrow> result" where
  "make_result item =
     (case item of (c, src, score) \<Rightarrow>
        \<lparr>r_source_id = c_source_id c, r_chunk_id = c_id c, r_chunk_index = c_chunk_index c,
         r_score = score,
         r_excerpt = (if length (c_content c) > 2500 then take 2500 (c_content c) @ ellipsis
                      else c_content c),
         r_url = s_url src, r_title = s_title src, r_source_type = s_source_type src,
         r_metadata = s_metadata src\<rparr>)"

text \<open>
  The loop over the sorted rows, with the set \<open>seen\<close> and the \<open>results\<close> so far: a row of
  a source already seen is skipped; another row is pushed, and the loop stops when the
  results then number at least \<open>topK\<close>.
\<close>

fun dedup_loop :: "int \<Rightarrow> scored list \<Rightarrow> string set \<Rightarrow> result list \<Rightarrow> result list" where
  "dedup_loop topK [] seen results = results"
| "dedup_loop topK (item # rest) seen results =
     (if c_source_id (fst item) \<in> seen then dedup_loop topK rest seen results
      else if int (length (results @ [make_result item])) \<ge> topK then results @ [make_result item]
      else dedup_loop topK rest (insert (c_source_id (fst item)) seen) (results @ [make_result item]))"

text \<open>The \<open>SELECT\<close> of the query: the chunks of the given dimension, each with its source.\<close>

definition select_rows :: "db \<Rightarrow> nat \<Rightarrow> (chunk_row \<times> source_row) list" where
  "select_rows d qDim =
     concat (map (\<lambda>c. map (\<lambda>src. (c, src)) (filter (\<lambda>src. s_id src = c_source_id c) (source_rows d)))
               (filter (\<lambda>c. c_embedding_dim c = qDim) (chunk_rows d)))"

text \<open>
  \<open>query(question, topK)\<close>. The result is the thrown error, or the list of results, or
  \<open>Inr None\<close> when a score is \<open>NaN\<close>: the comparison function of the sort is then not
  consistent and the order of the sorted array is left to the implementation.
  \<open>scored.sort((a, b) => b.score - a.score)\<close> is a stable sort by falling score.
\<close>

definition query ::
  "net_env \<Rightarrow> string \<Rightarrow> int \<Rightarrow> db \<Rightarrow> cache \<times> net_log \<Rightarrow>
   (error + result list option) \<times> cache \<times> net_log" where
  "query env question topK d st =
     (case embedQuery env question st of
        (Inl e, st') \<Rightarrow> (Inl e, st')
      | (Inr q, st') \<Rightarrow>
          (let rows = select_rows d (dim q) in
           if length rows = 0 then (Inr (Some []), st')
           else
             (case embedding q of
                None \<Rightarrow> (Inl undefined_read, st')
              | Some qEmb \<Rightarrow>
                  (let scores = map (\<lambda>row. cosineSimilarity qEmb (deserializeEmbedding (c_embedding (fst row)))) rows
                   in if list_ex (\<lambda>x. x = None) scores then (Inr None, st')
                      else
                        (let scored = map (\<lambda>(row, x). (fst row, snd row, (case x of None \<Rightarrow> 0 | Some v \<Rightarrow> v)))
                                        (zip rows scores);
                             sorted = sort_key (\<lambda>item. - snd (snd item)) scored
                         in (Inr (Some (dedup_loop topK sorted {} [])), st'))))))"

subsection \<open>A store with two sources and three chunks\<close>

text \<open>
  The vectors have one component. A question of one character is embedded by
  \<open>cache_demo_net\<close> as \<open>[1]\<close>, so the three chunks score 1, -1 and 0.
\<close>

definition src1 :: source_row where
  "src1 = \<lparr>s_id = ''s1'', s_url = ''https://example.com/a'', s_title = ''A'',
            s_source_type = ''article'', s_raw_content = ''one two'',
            s_content_hash = Some ''h1'', s_metadata = [], s_created_at = ''t''\<rparr>"

definition src2 :: source_row where
  "src2 = \<lparr>s_id = ''s2'', s_url = ''https://example.com/b'', s_title = ''B'',
            s_source_type = ''article'', s_raw_content = ''three'',
            s_content_hash = Some ''h2'', s_metadata = [], s_created_at = ''t''\<rparr>"

definition chunk1 :: chunk_row where
  "chunk1 = \<lparr>c_id = ''c1'', c_source_id = ''s1'', c_chunk_index = 0, c_content = ''one'',
              c_embedding = [1], c_embedding_dim = 1, c_embedding_provider = Some ''google'',
              c_embedding_model = Some ''text-embedding-004'', c_created_at = ''t''\<rparr>"

definition chunk2 :: chunk_row where
  "chunk2 = \<lparr>c_id = ''c2'', c_source_id = ''s1'', c_chunk_index = 1, c_content = ''two'',
              c_embedding = [-1], c_embedding_dim = 1, c_embedding_provider = Some ''google'',
              c_embedding_model = Some ''text-embedding-004'', c_created_at = ''t''\<rparr>"

definition chunk3 :: chunk_row where
  "chunk3 = \<lparr>c_id = ''c3'', c_source_id = ''s2'', c_chunk_index = 0, c_content = ''three'',
              c_embedding = [0], c_embedding_dim = 1, c_embedding_provider = Some ''google'',
              c_embedding_model = Some ''text-embedding-004'', c_created_at = ''t''\<rparr>"

definition three_chunk_db :: db where
  "three_chunk_db = \<lparr>source_rows = [src1, src2], chunk_rows = [chunk1, chunk2, chunk3]\<rparr>"

section \<open>Facts about the patterns\<close>

lemma set_seq: "set (seq a b s) = (\<Union>m\<in>set (a s). set (b m))"
  by (simp add: seq_def)

lemma set_alt: "set (alt a b s) = set (a s) \<union> set (b s)"
  by (simp add: alt_def)

lemma set_opt: "set (opt a s) = insert s (set (a s))"
  by (simp add: opt_def)

lemma set_eoi: "set (eoi s) = (if s = [] then {[]} else {})"
  by (simp add: eoi_def)

lemma ci_equal_length: "ci_equal a b \<Longrightarrow> length a = length b"
  unfolding ci_equal_def by (rule map_eq_imp_length_eq)

lemma in_lit_i: "r \<in> set (lit_i p s) \<longleftrightarrow> (\<exists>e. s = e @ r \<and> ci_equal e p)"
proof
  assume "r \<in> set (lit_i p s)"
  then have *: "length p \<le> length s" "ci_equal (take (length p) s) p" "r = drop (length p) s"
    by (auto simp: lit_i_def split: if_splits)
  then have "s = take (length p) s @ r"
    by simp
  with * show "\<exists>e. s = e @ r \<and> ci_equal e p"
    by blast
next
  assume "\<exists>e. s = e @ r \<and> ci_equal e p"
  then obtain e where e: "s = e @ r" "ci_equal e p" by blast
  then have "length e = length p" by (simp add: ci_equal_length)
  with e show "r \<in> set (lit_i p s)"
    by (simp add: lit_i_def)
qed

lemma all_take_iff: "(\<forall>c\<in>set (take k s). P c) \<longleftrightarrow> min k (length s) \<le> length (takeWhile P s)"
proof (induction s arbitrary: k)
  case Nil
  then show ?case by simp
next
  case (Cons a s)
  then show ?case by (cases k) auto
qed

lemma set_star_cls: "set (star_cls P s) = (\<lambda>k. drop k s) ` {0 ..< Suc (length (takeWhile P s))}"
  unfolding star_cls_def by (simp only: set_map set_rev set_upt)

lemma in_star_cls:
  "r \<in> set (star_cls P s) \<longleftrightarrow> (\<exists>e. s = e @ r \<and> (\<forall>c\<in>set e. P c))"
proof
  assume "r \<in> set (star_cls P s)"
  then obtain k where k: "k \<le> length (takeWhile P s)" "r = drop k s"
    by (auto simp: set_star_cls less_Suc_eq_le)
  have "k \<le> length s" using k(1) length_takeWhile_le[of P s] by linarith
  with k have "\<forall>c\<in>set (take k s). P c"
    by (simp add: all_take_iff)
  moreover have "s = take k s @ r" using k by simp
  ultimately show "\<exists>e. s = e @ r \<and> (\<forall>c\<in>set e. P c)" by blast
next
  assume "\<exists>e. s = e @ r \<and> (\<forall>c\<in>set e. P c)"
  then obtain e where e: "s = e @ r" "\<forall>c\<in>set e. P c" by blast
  then have "\<forall>c\<in>set (take (length e) s). P c" by simp
  then have "length e \<le> length (takeWhile P s)"
    using e(1) by (simp add: all_take_iff)
  moreover have "r = drop (length e) s" using e by simp
  ultimately show "r \<in> set (star_cls P s)"
    by (auto simp: set_star_cls less_Suc_eq_le)
qed

lemma seqs_Nil: "seqs [] s = [s]" by (simp add: seqs_def)
lemma seqs_Cons: "seqs (m # ms) = seq m (seqs ms)" by (simp add: seqs_def)

lemma of_char_js_lower:
  "(of_char (js_lower c) :: nat) =
     (if 65 \<le> (of_char c :: nat) \<and> (of_char c :: nat) \<le> 90 then of_char c + 32 else of_char c)"
  by (simp add: js_lower_def Let_def)

lemma js_lower_qm: "js_lower c = CHR ''?'' \<longleftrightarrow> c = CHR ''?''"
proof -
  have "js_lower c = CHR ''?'' \<longleftrightarrow> (of_char (js_lower c) :: nat) = of_char (CHR ''?'')"
    by (simp only: of_char_eq_iff)
  also have "\<dots> \<longleftrightarrow> (of_char c :: nat) = of_char (CHR ''?'')"
    by (simp add: of_char_js_lower)
  also have "\<dots> \<longleftrightarrow> c = CHR ''?''"
    by (simp only: of_char_eq_iff)
  finally show ?thesis .
qed

lemma ci_equal_qm: "ci_equal e ''?'' \<longleftrightarrow> e = ''?''"
proof -
  have l: "js_lower CHR ''?'' = CHR ''?''" by (simp add: js_lower_qm)
  show ?thesis
    unfolding ci_equal_def by (cases e) (auto simp: js_lower_qm l)
qed

lemma query_tail_iff:
  "query_tail q \<longleftrightarrow> q = [] \<or> (\<exists>r. q = CHR ''?'' # r \<and> (\<forall>c\<in>set r. \<not> js_line_terminator c))"
  by (cases q) (auto simp: query_tail_def list_all_iff)

lemma lit_qm: "r \<in> set (lit_i ''?'' s) \<longleftrightarrow> s = CHR ''?'' # r"
  by (auto simp: in_lit_i ci_equal_qm)

lemma star_all: "[] \<in> set (star_cls P r) \<longleftrightarrow> (\<forall>c\<in>set r. P c)"
  by (simp add: in_star_cls)

lemma pdf_body:
  "seqs [lit_i ''.pdf'', opt (seqs [lit_i ''?'', star_cls js_dot]), eoi] t \<noteq> [] \<longleftrightarrow>
     (\<exists>e q. t = e @ q \<and> ci_equal e ''.pdf'' \<and> query_tail q)"
proof -
  have "seqs [lit_i ''.pdf'', opt (seqs [lit_i ''?'', star_cls js_dot]), eoi] t \<noteq> [] \<longleftrightarrow>
     (\<exists>q \<in> set (lit_i ''.pdf'' t). q = [] \<or> (\<exists>r \<in> set (lit_i ''?'' q). [] \<in> set (star_cls js_dot r)))"
    unfolding set_empty2[symmetric]
    by (auto simp: seqs_Cons seqs_Nil set_seq set_opt set_eoi split: if_splits)
  also have "\<dots> \<longleftrightarrow> (\<exists>q. (\<exists>e. t = e @ q \<and> ci_equal e ''.pdf'') \<and> query_tail q)"
    by (simp only: Bex_def lit_qm star_all query_tail_iff js_dot_def) (simp only: in_lit_i)
  also have "\<dots> \<longleftrightarrow> (\<exists>e q. t = e @ q \<and> ci_equal e ''.pdf'' \<and> query_tail q)"
    by blast
  finally show ?thesis .
qed

lemma PDF_RE_iff:
  "PDF_RE u \<longleftrightarrow> (\<exists>p e q. u = p @ e @ q \<and> ci_equal e ''.pdf'' \<and> query_tail q)"
proof -
  have "PDF_RE u \<longleftrightarrow> (\<exists>t. suffix t u \<and> (\<exists>e q. t = e @ q \<and> ci_equal e ''.pdf'' \<and> query_tail q))"
    unfolding PDF_RE_def test_anywhere_def list_ex_iff pdf_body by (simp add: Bex_def)
  also have "\<dots> \<longleftrightarrow> (\<exists>p e q. u = p @ e @ q \<and> ci_equal e ''.pdf'' \<and> query_tail q)"
    unfolding suffix_def by blast
  finally show ?thesis .
qed


section \<open>Properties of the classifier\<close>

text \<open>
  C9 fails on the code. \<open>PDF_RE\<close> is tested on the whole string, query string
  included, and before the test for \<open>http://\<close> or \<open>https://\<close>. So an HTTP(S) URL
  whose path does not end in \<open>.pdf\<close> but whose query string does is classified \<open>pdf\<close>
  where C9 says \<open>article\<close>, and strings that are no HTTP(S) URLs (a file path, an
  \<open>ftp\<close> URL) are classified \<open>pdf\<close> where C9 allows \<open>pdf\<close> for HTTP(S) URLs only.
\<close>

theorem detectSourceType_pdf_in_query_or_not_http:
  "detectSourceType (Some ''https://example.com/a?x=.pdf'') = ''pdf'' \<and>
   HTTP_RE ''https://example.com/a?x=.pdf'' \<and>
   url_path_part ''https://example.com/a?x=.pdf'' = ''https://example.com/a'' \<and>
   \<not> suffix ''.pdf'' (url_path_part ''https://example.com/a?x=.pdf'') \<and>
   detectSourceType (Some ''/local/path/file.pdf'') = ''pdf'' \<and>
   \<not> HTTP_RE ''/local/path/file.pdf'' \<and>
   detectSourceType (Some ''ftp://x/y.pdf'') = ''pdf'' \<and>
   \<not> HTTP_RE ''ftp://x/y.pdf'' \<and>
   detectSourceType (Some ''/local/path/file.txt'') = ''other'' \<and>
   detectSourceType (Some ''ftp://x/y'') = ''other''"
  by code_simp

text \<open>
  What the classifier does answer \<open>pdf\<close> for: exactly the non-empty strings, not matched
  by the tweet or video patterns, that contain \<open>.pdf\<close> (in any letter case) followed by
  the end of the string or by a \<open>?\<close> and characters without a line break up to the end,
  whether or not the string is an HTTP(S) URL. The spec's example
  \<open>https://example.com/doc.pdf?x=1\<close> is classified \<open>pdf\<close>, and an HTTP(S) string that
  none of the three patterns matches is classified \<open>article\<close>.
\<close>

theorem detectSourceType_pdf_iff:
  "(detectSourceType (Some u) = ''pdf'' \<longleftrightarrow>
      u \<noteq> [] \<and> \<not> TWITTER_RE u \<and> \<not> YOUTUBE_RE u \<and>
      (\<exists>p e q. u = p @ e @ q \<and> ci_equal e ''.pdf'' \<and> query_tail q)) \<and>
   detectSourceType (Some ''https://example.com/doc.pdf?x=1'') = ''pdf'' \<and>
   (HTTP_RE u \<and> \<not> TWITTER_RE u \<and> \<not> YOUTUBE_RE u \<and> \<not> PDF_RE u \<longrightarrow>
      detectSourceType (Some u) = ''article'')"
proof (intro conjI)
  show "detectSourceType (Some u) = ''pdf'' \<longleftrightarrow>
      u \<noteq> [] \<and> \<not> TWITTER_RE u \<and> \<not> YOUTUBE_RE u \<and>
      (\<exists>p e q. u = p @ e @ q \<and> ci_equal e ''.pdf'' \<and> query_tail q)"
    unfolding PDF_RE_iff[symmetric] by (simp add: detectSourceType_def)
  show "detectSourceType (Some ''https://example.com/doc.pdf?x=1'') = ''pdf''"
    by code_simp
  have "HTTP_RE u \<Longrightarrow> u \<noteq> []"
    by (auto simp: HTTP_RE_def test_anchored_def seqs_Cons seq_def lit_i_def)
  then show "HTTP_RE u \<and> \<not> TWITTER_RE u \<and> \<not> YOUTUBE_RE u \<and> \<not> PDF_RE u \<longrightarrow>
      detectSourceType (Some u) = ''article''"
    by (auto simp: detectSourceType_def)
qed

theorem detectSourceType_pdf_iff_witness:
  "ci_equal ''.PDF'' ''.pdf'' \<and> query_tail ''?download=1'' \<and>
   detectSourceType (Some ''https://example.com/report.PDF?download=1'') = ''pdf'' \<and>
   HTTP_RE ''https://example.com/article'' \<and> \<not> PDF_RE ''https://example.com/article'' \<and>
   detectSourceType (Some ''https://example.com/article'') = ''article''"
proof -
  have a: "ci_equal ''.PDF'' ''.pdf''" "query_tail ''?download=1''"
    "\<not> TWITTER_RE ''https://example.com/report.PDF?download=1''"
    "\<not> YOUTUBE_RE ''https://example.com/report.PDF?download=1''"
    by code_simp+
  have "''https://example.com/report.PDF?download=1'' =
      ''https://example.com/report'' @ ''.PDF'' @ ''?download=1''"
    by simp
  with a have "\<exists>p e q. ''https://example.com/report.PDF?download=1'' = p @ e @ q \<and>
      ci_equal e ''.pdf'' \<and> query_tail q"
    by blast
  with a have pdf: "detectSourceType (Some ''https://example.com/report.PDF?download=1'') = ''pdf''"
    using detectSourceType_pdf_iff [of "''https://example.com/report.PDF?download=1''"]
    by (simp del: detectSourceType_def)
  have b: "HTTP_RE ''https://example.com/article''" "\<not> PDF_RE ''https://example.com/article''"
    "\<not> TWITTER_RE ''https://example.com/article''" "\<not> YOUTUBE_RE ''https://example.com/article''"
    by code_simp+
  then have "detectSourceType (Some ''https://example.com/article'') = ''article''"
    using detectSourceType_pdf_iff [of "''https://example.com/article''"] by blast
  with a pdf b show ?thesis by blast
qed

section \<open>Facts about the chunker\<close>

lemma dropWhile_keeps:
  "x \<noteq> [] \<Longrightarrow> \<not> P (hd x) \<Longrightarrow> \<exists>p'. dropWhile P (p @ x @ q) = p' @ x @ q"
proof (induction p)
  case Nil
  then have "dropWhile P (x @ q) = x @ q" by (cases x) auto
  then show ?case by (metis append_Nil)
next
  case (Cons a p)
  then show ?case by (cases "P a") (auto intro: exI[of _ "a # p"])
qed

lemma sublist_dropWhile_keeps:
  assumes "sublist x y" "x \<noteq> []" "\<not> P (hd x)"
  shows "sublist x (dropWhile P y)"
proof -
  from assms(1) obtain p q where "y = p @ x @ q" by (auto simp: sublist_def)
  with dropWhile_keeps[of x P p q] assms(2,3) show ?thesis by (auto simp: sublist_def)
qed

lemma sublist_into_trim:
  assumes "sublist x y" "x \<noteq> []" "\<not> js_space (hd x)" "\<not> js_space (last x)"
  shows "sublist x (trim y)"
proof -
  have 1: "sublist x (dropWhile js_space y)"
    using assms by (intro sublist_dropWhile_keeps)
  have "sublist (rev x) (dropWhile js_space (rev (dropWhile js_space y)))"
    using 1 assms by (intro sublist_dropWhile_keeps) (simp_all add: hd_rev)
  then show ?thesis by (simp add: trim_def sublist_rev_left)
qed

lemma sublist_trim: "sublist (trim s) s"
proof -
  have "sublist (trim s) (dropWhile js_space s)"
    unfolding trim_def sublist_rev_left by simp
  also have "sublist (dropWhile js_space s) s" by simp
  finally show ?thesis .
qed

lemma last_dropWhile: "dropWhile P xs \<noteq> [] \<Longrightarrow> last (dropWhile P xs) = last xs"
  by (induction xs) (auto split: if_splits)

lemma trim_ends:
  assumes "trim s \<noteq> []"
  shows "\<not> js_space (hd (trim s))" "\<not> js_space (last (trim s))"
proof -
  let ?r = "dropWhile js_space s"
  let ?t = "dropWhile js_space (rev ?r)"
  from assms have t: "?t \<noteq> []" by (simp add: trim_def)
  have r: "?r \<noteq> []"
  proof
    assume "?r = []"
    then have "?t = []" by (simp del: dropWhile_eq_Nil_conv)
    with t show False by simp
  qed
  have "last (trim s) = hd ?t" using t by (simp add: trim_def last_rev)
  with hd_dropWhile[OF t] show "\<not> js_space (last (trim s))" by simp
  have "hd (trim s) = last ?t" using t by (simp add: trim_def hd_rev)
  also have "\<dots> = last (rev ?r)" using t by (rule last_dropWhile)
  also have "\<dots> = hd ?r" using r by (simp add: last_rev)
  finally show "\<not> js_space (hd (trim s))" using hd_dropWhile[OF r] by simp
qed

lemma kept_buffer:
  assumes "trim s \<noteq> []" "sublist (trim s) current"
  shows "kept s (chunks, current)"
  using sublist_into_trim[OF assms(2,1) trim_ends[OF assms(1)]] by (simp add: kept_def)

lemma chunk_step_keeps:
  assumes "kept s st" "trim s \<noteq> []"
  shows "kept s (chunk_step st x)"
proof (cases st)
  case (Pair chunks current)
  show ?thesis
  proof (cases "length current + length x > CHUNK_SIZE \<and> length current \<ge> MIN_CHUNK")
    case True
    then have "chunk_step st x = (chunks @ [trim current], slice_last OVERLAP current @ x)"
      by (simp add: chunk_step_def Pair Let_def)
    with assms Pair show ?thesis by (auto simp: kept_def)
  next
    case False
    then have eq: "chunk_step st x = (chunks, current @ (if current \<noteq> [] then '' '' else []) @ x)"
      by (auto simp add: chunk_step_def Pair)
    from assms(1) consider "\<exists>c\<in>set chunks. sublist (trim s) c" | "sublist (trim s) (trim current)"
      by (auto simp: kept_def Pair)
    then show ?thesis
    proof cases
      case 1
      then show ?thesis by (simp add: kept_def eq)
    next
      case 2
      then have "sublist (trim s) current"
        using sublist_trim sublist_order.order_trans by blast
      then have "sublist (trim s) (current @ (if current \<noteq> [] then '' '' else []) @ x)"
        using sublist_append_rightI sublist_order.order_trans by blast
      then show ?thesis unfolding eq by (rule kept_buffer[OF assms(2)])
    qed
  qed
qed

lemma chunk_step_adds:
  assumes "trim x \<noteq> []"
  shows "kept x (chunk_step st x)"
proof (cases st)
  case (Pair chunks current)
  have x: "sublist (trim x) x" by (rule sublist_trim)
  have "\<And>pre. sublist x (pre @ x)" by simp
  from this[of "slice_last OVERLAP current"] this[of "current @ '' ''"] this[of current]
  have "sublist x (snd (chunk_step st x))"
    by (simp add: chunk_step_def Pair Let_def)
  with x have "sublist (trim x) (snd (chunk_step st x))"
    using sublist_order.order_trans by blast
  then have "kept x (fst (chunk_step st x), snd (chunk_step st x))"
    by (rule kept_buffer[OF assms])
  then show ?thesis by simp
qed

lemma foldl_chunk_step_keeps:
  "kept s st \<Longrightarrow> trim s \<noteq> [] \<Longrightarrow> kept s (foldl chunk_step st xs)"
  by (induction xs arbitrary: st) (simp_all add: chunk_step_keeps)

lemma foldl_chunk_step_adds:
  "x \<in> set xs \<Longrightarrow> trim x \<noteq> [] \<Longrightarrow> kept x (foldl chunk_step st xs)"
proof (induction xs arbitrary: st)
  case Nil
  then show ?case by simp
next
  case (Cons a xs)
  show ?case
  proof (cases "x = a")
    case True
    with Cons.prems show ?thesis
      by (simp add: foldl_chunk_step_keeps chunk_step_adds)
  next
    case False
    with Cons show ?thesis by simp
  qed
qed

lemma chunk_finish_keeps:
  assumes "kept s st" "trim s \<noteq> []"
  shows "\<exists>c\<in>set (chunk_finish st). sublist (trim s) c"
proof (cases st)
  case (Pair chunks current)
  from assms(1) consider (old) c where "c \<in> set chunks" "sublist (trim s) c"
    | (buf) "sublist (trim s) (trim current)"
    by (auto simp: kept_def Pair)
  then show ?thesis
  proof cases
    case old
    show ?thesis
    proof (cases "length (trim current) > 0 \<and> length (trim current) < MIN_CHUNK \<and> length chunks > 0")
      case True
      then have chunks: "chunks = butlast chunks @ [last chunks]" by simp
      have fin: "chunk_finish st = butlast chunks @ [last chunks @ '' '' @ trim current]"
        using True by (simp add: chunk_finish_def Pair)
      from old(1) chunks have "c \<in> set (butlast chunks) \<or> c = last chunks"
        by (metis Un_iff empty_iff insert_iff list.simps(15) set_append set_empty)
      then show ?thesis
      proof
        assume "c \<in> set (butlast chunks)"
        with old(2) show ?thesis unfolding fin by auto
      next
        assume "c = last chunks"
        with old(2) have "sublist (trim s) (last chunks @ '' '' @ trim current)"
          using sublist_append_rightI sublist_order.order_trans by blast
        then show ?thesis unfolding fin by auto
      qed
    next
      case False
      then have "set chunks \<subseteq> set (chunk_finish st)"
        by (auto simp: chunk_finish_def Pair)
      with old show ?thesis by blast
    qed
  next
    case buf
    with assms(2) have "length (trim current) > 0" by auto
    then have "trim current \<in> set (chunk_finish st) \<or>
        last chunks @ '' '' @ trim current \<in> set (chunk_finish st)"
      by (auto simp: chunk_finish_def Pair)
    then show ?thesis
    proof
      assume "trim current \<in> set (chunk_finish st)"
      with buf show ?thesis by blast
    next
      assume *: "last chunks @ '' '' @ trim current \<in> set (chunk_finish st)"
      have "sublist (trim current) (last chunks @ '' '' @ trim current)"
        using sublist_append_leftI[of "trim current" "last chunks @ '' ''"] by simp
      with buf have "sublist (trim s) (last chunks @ '' '' @ trim current)"
        using sublist_order.order_trans by blast
      with * show ?thesis by blast
    qed
  qed
qed



section \<open>Properties of the chunker\<close>




section \<open>Properties of the lock\<close>

lemma includes_busy: "str_includes (message busy_error) ''Another ingestion''"
  unfolding str_includes_def busy_error_def by code_simp

lemma includes_null_read: "\<not> str_includes (message null_read) ''Another ingestion''"
  unfolding str_includes_def null_read_def by code_simp

text \<open>
  C8 fails on the code for an unparsable marker whose \<open>SyntaxError\<close> quotes the words
  \<open>Another ingestion\<close>. The \<open>catch\<close> clause tells the busy error from the other errors
  by these words in the message, so it throws the \<open>SyntaxError\<close> of \<open>JSON.parse\<close> again:
  the call fails and the marker stays, with no file operation done, where C8 has the
  marker removed, a fresh one written and the call succeed. The process of the
  example is alone and its clock is far past any marker.
\<close>

theorem acquireLock_keeps_unparsable_marker:
  "str_includes quoting_message ''Another ingestion'' \<and>
   acquireLock \<lparr>my_pid = 4242, isPidAlive = (\<lambda>p. False), now_check = 1000000, now_write = 1000005\<rparr>
        \<lparr>marker = Some (Unparsable quoting_message), ops = []\<rparr> =
     (Inl (SyntaxError quoting_message), \<lparr>marker = Some (Unparsable quoting_message), ops = []\<rparr>)"
proof -
  have i: "str_includes quoting_message ''Another ingestion''"
    unfolding str_includes_def quoting_message_def by code_simp
  then show ?thesis
    by (simp add: acquireLock_def try_block_def)
qed

text \<open>
  What \<open>acquireLock\<close> does on every marker. It throws the busy error exactly when a
  marker exists whose process is alive and whose age is below \<open>STALE_MS\<close> (15 minutes),
  and every error it throws leaves the marker and the file system alone. When the
  marker is stale, its owner dead, or the marker unreadable with an error message that
  does not include \<open>Another ingestion\<close>, the old marker is unlinked, a new one with the
  caller's pid and time is written, and the call succeeds. An unparsable marker whose
  error message includes \<open>Another ingestion\<close> makes the call throw the \<open>SyntaxError\<close>.
  Without a marker the new one is just written.
\<close>

theorem acquireLock_busy_iff:
  "(fst (acquireLock env fs) = Inl busy_error \<longleftrightarrow>
      (\<exists>pid ts. marker fs = Some (Marker pid ts) \<and> isPidAlive env pid \<and>
         now_check env - ts < STALE_MS)) \<and>
   (\<forall>e. fst (acquireLock env fs) = Inl e \<longrightarrow> snd (acquireLock env fs) = fs) \<and>
   (marker fs = Some Unusable \<or> marker fs = Some Null \<or>
    (\<exists>m. marker fs = Some (Unparsable m) \<and> \<not> str_includes m ''Another ingestion'') \<or>
    (\<exists>pid ts. marker fs = Some (Marker pid ts) \<and>
       (\<not> isPidAlive env pid \<or> STALE_MS \<le> now_check env - ts)) \<longrightarrow>
      acquireLock env fs =
        (Inr (), \<lparr>marker = Some (Marker (my_pid env) (now_write env)),
                  ops = ops fs @ [Unlink, Write (Marker (my_pid env) (now_write env))]\<rparr>)) \<and>
   (\<forall>m. marker fs = Some (Unparsable m) \<and> str_includes m ''Another ingestion'' \<longrightarrow>
      acquireLock env fs = (Inl (SyntaxError m), fs)) \<and>
   (marker fs = None \<longrightarrow>
      acquireLock env fs =
        (Inr (), \<lparr>marker = Some (Marker (my_pid env) (now_write env)),
                  ops = ops fs @ [Write (Marker (my_pid env) (now_write env))]\<rparr>))"
proof -
  note b = includes_busy includes_null_read
  have 1: "fst (acquireLock env fs) = Inl busy_error \<longleftrightarrow>
      (\<exists>pid ts. marker fs = Some (Marker pid ts) \<and> isPidAlive env pid \<and>
         now_check env - ts < STALE_MS)"
    using b
    by (auto simp: acquireLock_def try_block_def Let_def busy_error_def
             split: option.splits lockfile.splits if_splits)
  have 2: "\<forall>e. fst (acquireLock env fs) = Inl e \<longrightarrow> snd (acquireLock env fs) = fs"
    by (auto simp: acquireLock_def split: option.splits if_splits)
  have 3: "marker fs = Some Unusable \<or> marker fs = Some Null \<or>
    (\<exists>m. marker fs = Some (Unparsable m) \<and> \<not> str_includes m ''Another ingestion'') \<or>
    (\<exists>pid ts. marker fs = Some (Marker pid ts) \<and>
       (\<not> isPidAlive env pid \<or> STALE_MS \<le> now_check env - ts)) \<longrightarrow>
      acquireLock env fs =
        (Inr (), \<lparr>marker = Some (Marker (my_pid env) (now_write env)),
                  ops = ops fs @ [Unlink, Write (Marker (my_pid env) (now_write env))]\<rparr>)"
    using b
    by (cases fs)
       (auto simp: acquireLock_def try_block_def Let_def unlinkSync_def writeFileSync_def)
  have 4: "\<forall>m. marker fs = Some (Unparsable m) \<and> str_includes m ''Another ingestion'' \<longrightarrow>
      acquireLock env fs = (Inl (SyntaxError m), fs)"
    by (auto simp: acquireLock_def try_block_def)
  have 5: "marker fs = None \<longrightarrow>
      acquireLock env fs =
        (Inr (), \<lparr>marker = Some (Marker (my_pid env) (now_write env)),
                  ops = ops fs @ [Write (Marker (my_pid env) (now_write env))]\<rparr>)"
    by (cases fs) (auto simp: acquireLock_def writeFileSync_def)
  from 1 2 3 4 5 show ?thesis by blast
qed

theorem acquireLock_busy_iff_witness:
  "fst (acquireLock \<lparr>my_pid = 4242, isPidAlive = (\<lambda>p. p = 100), now_check = 1000000, now_write = 1000005\<rparr>
        \<lparr>marker = Some (Marker 100 940000), ops = []\<rparr>) = Inl busy_error \<and>
   acquireLock \<lparr>my_pid = 4242, isPidAlive = (\<lambda>p. p = 100), now_check = 1000000, now_write = 1000005\<rparr>
        \<lparr>marker = Some (Marker 100 100000), ops = []\<rparr> =
     (Inr (), \<lparr>marker = Some (Marker 4242 1000005), ops = [Unlink, Write (Marker 4242 1000005)]\<rparr>) \<and>
   acquireLock \<lparr>my_pid = 4242, isPidAlive = (\<lambda>p. p = 100), now_check = 1000000, now_write = 1000005\<rparr>
        \<lparr>marker = Some (Marker 7 999000), ops = []\<rparr> =
     (Inr (), \<lparr>marker = Some (Marker 4242 1000005), ops = [Unlink, Write (Marker 4242 1000005)]\<rparr>) \<and>
   acquireLock \<lparr>my_pid = 4242, isPidAlive = (\<lambda>p. p = 100), now_check = 1000000, now_write = 1000005\<rparr>
        \<lparr>marker = Some (Unparsable ''Unexpected end of JSON input''), ops = []\<rparr> =
     (Inr (), \<lparr>marker = Some (Marker 4242 1000005), ops = [Unlink, Write (Marker 4242 1000005)]\<rparr>) \<and>
   acquireLock \<lparr>my_pid = 4242, isPidAlive = (\<lambda>p. p = 100), now_check = 1000000, now_write = 1000005\<rparr>
        \<lparr>marker = None, ops = []\<rparr> =
     (Inr (), \<lparr>marker = Some (Marker 4242 1000005), ops = [Write (Marker 4242 1000005)]\<rparr>)"
proof -
  let ?env = "\<lparr>my_pid = 4242, isPidAlive = (\<lambda>p. p = 100), now_check = 1000000, now_write = 1000005\<rparr>"
  have fresh: "\<exists>pid ts. marker \<lparr>marker = Some (Marker 100 940000), ops = []\<rparr> = Some (Marker pid ts) \<and>
      isPidAlive ?env pid \<and> now_check ?env - ts < STALE_MS"
    by (simp add: STALE_MS_def)
  have stale: "\<exists>pid ts. marker \<lparr>marker = Some (Marker 100 100000), ops = []\<rparr> = Some (Marker pid ts) \<and>
      (\<not> isPidAlive ?env pid \<or> STALE_MS \<le> now_check ?env - ts)"
    by (simp add: STALE_MS_def)
  have dead: "\<exists>pid ts. marker \<lparr>marker = Some (Marker 7 999000), ops = []\<rparr> = Some (Marker pid ts) \<and>
      (\<not> isPidAlive ?env pid \<or> STALE_MS \<le> now_check ?env - ts)"
    by simp
  have "\<not> str_includes ''Unexpected end of JSON input'' ''Another ingestion''"
    unfolding str_includes_def by code_simp
  then have cut: "\<exists>m. marker \<lparr>marker = Some (Unparsable ''Unexpected end of JSON input''), ops = []\<rparr> =
      Some (Unparsable m) \<and> \<not> str_includes m ''Another ingestion''"
    by simp
  note t = acquireLock_busy_iff [of ?env]
  have 1: "fst (acquireLock ?env \<lparr>marker = Some (Marker 100 940000), ops = []\<rparr>) = Inl busy_error"
    using t [of "\<lparr>marker = Some (Marker 100 940000), ops = []\<rparr>"] fresh by blast
  have 2: "acquireLock ?env \<lparr>marker = Some (Marker 100 100000), ops = []\<rparr> =
     (Inr (), \<lparr>marker = Some (Marker 4242 1000005), ops = [Unlink, Write (Marker 4242 1000005)]\<rparr>)"
    using t [of "\<lparr>marker = Some (Marker 100 100000), ops = []\<rparr>"] stale by simp
  have 3: "acquireLock ?env \<lparr>marker = Some (Marker 7 999000), ops = []\<rparr> =
     (Inr (), \<lparr>marker = Some (Marker 4242 1000005), ops = [Unlink, Write (Marker 4242 1000005)]\<rparr>)"
    using t [of "\<lparr>marker = Some (Marker 7 999000), ops = []\<rparr>"] dead by simp
  have 4: "acquireLock ?env \<lparr>marker = Some (Unparsable ''Unexpected end of JSON input''), ops = []\<rparr> =
     (Inr (), \<lparr>marker = Some (Marker 4242 1000005), ops = [Unlink, Write (Marker 4242 1000005)]\<rparr>)"
    using t [of "\<lparr>marker = Some (Unparsable ''Unexpected end of JSON input''), ops = []\<rparr>"] cut by simp
  have 5: "acquireLock ?env \<lparr>marker = None, ops = []\<rparr> =
     (Inr (), \<lparr>marker = Some (Marker 4242 1000005), ops = [Write (Marker 4242 1000005)]\<rparr>)"
    using t [of "\<lparr>marker = None, ops = []\<rparr>"] by simp
  from 1 2 3 4 5 show ?thesis by blast
qed

section \<open>Facts about the embedding gateway\<close>

lemma map_of_cache_delete:
  "map_of (cache_delete c key) x = (if x = key then None else map_of c x)"
  by (induction c) (auto simp: cache_delete_def)

lemma cache_get_map_of:
  "fst (cache_get c key) = map_of c key \<and> map_of (snd (cache_get c key)) = map_of c"
proof (cases "map_of c key")
  case None
  then show ?thesis by (simp add: cache_get_def)
next
  case (Some val)
  have "map_of (cache_delete c key @ [(key, val)]) x = map_of c x" for x
    using Some by (simp add: map_of_cache_delete map_add_def split: option.splits)
  then have "map_of (cache_delete c key @ [(key, val)]) = map_of c" by (rule ext)
  with Some show ?thesis by (simp add: cache_get_def)
qed

lemma map_of_tl_None: "map_of c key = None \<Longrightarrow> map_of (tl c) key = None"
  by (cases c) (auto split: if_splits)

lemma cache_set_map_of: "map_of (cache_set c key val) key = Some val"
  by (simp add: cache_set_def map_add_def map_of_cache_delete map_of_tl_None)

text \<open>The first loop: what it leaves in its four variables.\<close>

lemma scan_foldl:
  assumes "foldl (scan_step texts) (R, U, I, C) js = (R', U', I', C')"
  shows "map_of C' = map_of C \<and>
         U' = U @ map (\<lambda>i. texts ! i) (filter (\<lambda>i. map_of C (texts ! i) = None) js) \<and>
         I' = I @ filter (\<lambda>i. map_of C (texts ! i) = None) js \<and>
         length R' = length R \<and>
         (\<forall>i<length R. R' ! i = (if i \<in> set js \<and> map_of C (texts ! i) \<noteq> None
                        then map_of C (texts ! i) else R ! i))"
  using assms
proof (induction js arbitrary: R U I C)
  case Nil
  then show ?case by simp
next
  case (Cons j js)
  obtain g C1 where g: "cache_get C (texts ! j) = (g, C1)" by (cases "cache_get C (texts ! j)")
  with cache_get_map_of[of C "texts ! j"]
  have gm: "g = map_of C (texts ! j)" and C1: "map_of C1 = map_of C" by simp_all
  show ?case
  proof (cases g)
    case None
    then have step: "scan_step texts (R, U, I, C) j = (R, U @ [texts ! j], I @ [j], C1)"
      by (simp add: scan_step_def g)
    from Cons.prems have "foldl (scan_step texts) (R, U @ [texts ! j], I @ [j], C1) js = (R', U', I', C')"
      by (simp add: step)
    from Cons.IH[OF this] None gm C1 show ?thesis by auto
  next
    case (Some e)
    then have step: "scan_step texts (R, U, I, C) j = (R[j := Some e], U, I, C1)"
      by (simp add: scan_step_def g)
    from Cons.prems have "foldl (scan_step texts) (R[j := Some e], U, I, C1) js = (R', U', I', C')"
      by (simp add: step)
    moreover have "\<And>i. map_of C (texts ! i) = None \<Longrightarrow> R[j := Some e] ! i = R ! i"
      using Some gm by (intro nth_list_update_neq) auto
    ultimately show ?thesis
      using Cons.IH[of "R[j := Some e]" U I C1] Some gm C1
      by (auto simp: nth_list_update)
  qed
qed

lemma map_nth_filter_upt:
  "map (\<lambda>i. xs ! i) (filter (\<lambda>i. P (xs ! i)) [0 ..< length xs]) = filter P xs"
proof (induction xs rule: rev_induct)
  case Nil
  then show ?case by simp
next
  case (snoc x xs)
  have "map (\<lambda>i. (xs @ [x]) ! i) (filter (\<lambda>i. P ((xs @ [x]) ! i)) [0 ..< length xs]) =
        map (\<lambda>i. xs ! i) (filter (\<lambda>i. P (xs ! i)) [0 ..< length xs])"
    by (intro map_cong filter_cong) (auto simp: nth_append)
  with snoc show ?case by (simp add: nth_append)
qed

lemma scan_all:
  assumes "foldl (scan_step texts) (replicate (length texts) None, [], [], C) [0 ..< length texts] =
             (R', U', I', C')"
  shows "map_of C' = map_of C" "U' = uncached_of C texts" "I' = uncached_idx_of C texts"
        "R' = map (map_of C) texts"
proof -
  note s = scan_foldl[OF assms]
  show "map_of C' = map_of C" using s by simp
  show "I' = uncached_idx_of C texts" using s by (simp add: uncached_idx_of_def)
  show "U' = uncached_of C texts"
    using s map_nth_filter_upt[of texts "\<lambda>t. map_of C t = None"] by (simp add: uncached_of_def)
  show "R' = map (map_of C) texts"
  proof (rule nth_equalityI)
    show "length R' = length (map (map_of C) texts)" using s by simp
    fix i assume "i < length R'"
    then have i: "i < length texts" using s by simp
    with s show "R' ! i = map (map_of C) texts ! i" by auto
  qed
qed

lemma retry_from_log:
  "(\<And>w. snd (fn w) = w @ [q]) \<Longrightarrow> retry_from n i fn w = (r, w') \<Longrightarrow>
     \<exists>k. w' = w @ replicate k q"
proof (induction n i fn w rule: retry_from.induct)
  case (1 attempts i fn w)
  note app = "1.prems"(1) and run = "1.prems"(2)
  show ?case
  proof (cases "i < attempts")
    case False
    with run have "w' = w" by (simp add: retry_from.simps[of attempts i])
    then show ?thesis by (auto intro: exI[of _ 0])
  next
    case True
    obtain x w1 where f: "fn w = (x, w1)" by (cases "fn w")
    with app[of w] have w1: "w1 = w @ [q]" by simp
    show ?thesis
    proof (cases x)
      case (Inr a)
      with run True f w1 have "w' = w @ replicate 1 q"
        by (simp add: retry_from.simps[of attempts i])
      then show ?thesis by blast
    next
      case (Inl err)
      show ?thesis
      proof (cases "i = attempts - 1")
        case True
        with run \<open>i < attempts\<close> f w1 Inl have "w' = w @ replicate 1 q"
          by (simp add: retry_from.simps[of attempts i])
        then show ?thesis by blast
      next
        case False
        with run \<open>i < attempts\<close> f Inl
        have "retry_from attempts (i + 1) fn w1 = (r, w')"
          by (simp add: retry_from.simps[of attempts i])
        from "1.IH"[OF \<open>i < attempts\<close> f[symmetric] Inl False app this]
        obtain k where "w' = w1 @ replicate k q" by blast
        with w1 have "w' = w @ replicate (Suc k) q" by simp
        then show ?thesis by blast
      qed
    qed
  qed
qed

lemma embedGemini_log:
  assumes "embedGemini env batch w = (r, w')"
  shows "\<exists>k. w' = w @ replicate k (''google'', map (take MAX_INPUT) batch)"
proof (cases "GEMINI_API_KEY env")
  case False
  with assms have "w' = w" by (simp add: embedGemini_def)
  then show ?thesis by (auto intro: exI[of _ 0])
next
  case True
  obtain x w1 where rt: "retry (gemini_request env (map (take MAX_INPUT) batch)) w = (x, w1)"
    by (cases "retry (gemini_request env (map (take MAX_INPUT) batch)) w")
  have "\<And>w. snd (gemini_request env (map (take MAX_INPUT) batch) w) =
      w @ [(''google'', map (take MAX_INPUT) batch)]"
    by (simp add: gemini_request_def split: sum.splits)
  from retry_from_log[OF this, of 3 0 w x w1] rt
  obtain k where "w1 = w @ replicate k (''google'', map (take MAX_INPUT) batch)"
    by (auto simp: retry_def)
  moreover from assms True rt have "w' = w1"
    by (auto simp: embedGemini_def Let_def split: sum.splits option.splits list.splits)
  ultimately show ?thesis by blast
qed

lemma embedOpenAI_log:
  assumes "embedOpenAI env batch w = (r, w')"
  shows "\<exists>k. w' = w @ replicate k (''openai'', map (take MAX_INPUT) batch)"
proof (cases "OPENAI_API_KEY env")
  case False
  with assms have "w' = w" by (simp add: embedOpenAI_def)
  then show ?thesis by (auto intro: exI[of _ 0])
next
  case True
  obtain x w1 where rt: "retry (openai_request env (map (take MAX_INPUT) batch)) w = (x, w1)"
    by (cases "retry (openai_request env (map (take MAX_INPUT) batch)) w")
  have "\<And>w. snd (openai_request env (map (take MAX_INPUT) batch) w) =
      w @ [(''openai'', map (take MAX_INPUT) batch)]"
    by (simp add: openai_request_def split: sum.splits)
  from retry_from_log[OF this, of 3 0 w x w1] rt
  obtain k where "w1 = w @ replicate k (''openai'', map (take MAX_INPUT) batch)"
    by (auto simp: retry_def)
  moreover from assms True rt have "w' = w1"
    by (auto simp: embedOpenAI_def Let_def split: sum.splits option.splits list.splits)
  ultimately show ?thesis by blast
qed

lemma embed_batch_log:
  assumes "embed_batch env batch w = (r, w')"
  shows "\<exists>ext. w' = w @ ext \<and> (\<forall>q\<in>set ext. snd q = map (take MAX_INPUT) batch)"
proof -
  obtain x w1 where g: "embedGemini env batch w = (x, w1)" by (cases "embedGemini env batch w")
  from embedGemini_log[OF g] obtain k where k: "w1 = w @ replicate k (''google'', map (take MAX_INPUT) batch)"
    by blast
  show ?thesis
  proof (cases x)
    case (Inr a)
    with assms g have "w' = w1" by (simp add: embed_batch_def)
    with k show ?thesis by auto
  next
    case (Inl ge)
    obtain y w2 where o: "embedOpenAI env batch w1 = (y, w2)" by (cases "embedOpenAI env batch w1")
    from embedOpenAI_log[OF o] obtain m where m: "w2 = w1 @ replicate m (''openai'', map (take MAX_INPUT) batch)"
      by blast
    from assms g Inl o have "w' = w2" by (auto simp: embed_batch_def split: sum.splits)
    with k m have "w' = w @ (replicate k (''google'', map (take MAX_INPUT) batch) @
        replicate m (''openai'', map (take MAX_INPUT) batch))" by simp
    moreover have "\<forall>q\<in>set (replicate k (''google'', map (take MAX_INPUT) batch) @
        replicate m (''openai'', map (take MAX_INPUT) batch)). snd q = map (take MAX_INPUT) batch"
      by auto
    ultimately show ?thesis by blast
  qed
qed

text \<open>Three failed attempts exhaust the retries of the first provider.\<close>

lemma embedGemini_three_failures:
  assumes "GEMINI_API_KEY env"
    and "gemini_fetch env (length w) (map (take MAX_INPUT) batch) = Inl m1"
    and "gemini_fetch env (Suc (length w)) (map (take MAX_INPUT) batch) = Inl m2"
    and "gemini_fetch env (Suc (Suc (length w))) (map (take MAX_INPUT) batch) = Inl m3"
  shows "embedGemini env batch w =
    (Inl (Error m3), w @ replicate 3 (''google'', map (take MAX_INPUT) batch))"
proof -
  let ?q = "(''google'', map (take MAX_INPUT) batch)"
  let ?fn = "gemini_request env (map (take MAX_INPUT) batch)"
  have 1: "?fn w = (Inl (Error m1), w @ [?q])"
    and 2: "?fn (w @ [?q]) = (Inl (Error m2), w @ [?q, ?q])"
    and 3: "?fn (w @ [?q, ?q]) = (Inl (Error m3), w @ [?q, ?q, ?q])"
    using assms by (simp_all add: gemini_request_def)
  have "retry ?fn w = (Inl (Error m3), w @ [?q, ?q, ?q])"
    unfolding retry_def
    by (simp add: retry_from.simps[of 3 0] retry_from.simps[of 3 "Suc 0"] retry_from.simps[of 3 2]
        retry_from.simps[of 3 "Suc (Suc 0)"] 1 2 3)
  with assms(1) show ?thesis
    by (simp add: embedGemini_def Let_def numeral_3_eq_3)
qed

text \<open>One round of the loop over the batches.\<close>

lemma batch_loop_fail:
  "embed_batch env (take BATCH_SIZE (drop b U)) w = (Inl e, w') \<Longrightarrow>
     batch_loop env U I b R C w = (Inl e, C, w')"
  by (simp add: batch_loop.simps[of env U I b])

lemma batch_loop_step:
  assumes "embed_batch env (take BATCH_SIZE (drop b U)) w = (Inr result, w1)"
    and "foldl (store_step (take BATCH_SIZE (drop b U)) (take BATCH_SIZE (drop b I)) result) (R, C)
           [0 ..< length (take BATCH_SIZE (drop b U))] = (R1, C1)"
  shows "batch_loop env U I b R C w =
     (if b + BATCH_SIZE < length U then batch_loop env U I (b + BATCH_SIZE) R1 C1 w1
      else (Inr \<lparr>dim = dim result, provider = provider result, model = model result,
                 embeddings = map embedding_of R1\<rparr>, C1, w1))"
  using assms by (simp add: batch_loop.simps[of env U I b] Let_def)

lemma embed_batch_error:
  assumes "embed_batch env batch w = (Inl e, w')"
  shows "\<exists>ge oe w1. embedGemini env batch w = (Inl ge, w1) \<and>
           embedOpenAI env batch w1 = (Inl oe, w') \<and> e = Error (combined_message ge oe)"
  using assms by (auto simp: embed_batch_def split: prod.splits sum.splits)

lemma store_foldl_length:
  "foldl (store_step batch bidx result) (R, C) js = (R', C') \<Longrightarrow> length R' = length R"
proof (induction js arbitrary: R C)
  case Nil
  then show ?case by simp
next
  case (Cons j js)
  then show ?case by (simp add: store_step_def Let_def)
qed

lemma batch_loop_log:
  "batch_loop env U I b R C w = (res, C', w') \<Longrightarrow> b < length U \<Longrightarrow>
     \<exists>ext. w' = w @ ext \<and>
       (\<forall>q\<in>set ext. \<exists>b'<length U. snd q = map (take MAX_INPUT) (take BATCH_SIZE (drop b' U)))"
proof (induction env U I b R C w rule: batch_loop.induct)
  case (1 env U I b R C w)
  let ?batch = "take BATCH_SIZE (drop b U)"
  let ?bidx = "take BATCH_SIZE (drop b I)"
  obtain x w1 where eb: "embed_batch env ?batch w = (x, w1)"
    by (cases "embed_batch env ?batch w")
  from embed_batch_log[OF eb] obtain ext1 where
    ext1': "w1 = w @ ext1" "\<forall>q\<in>set ext1. snd q = map (take MAX_INPUT) ?batch" by blast
  with "1.prems"(2) have ext1: "w1 = w @ ext1"
    "\<forall>q\<in>set ext1. \<exists>b'<length U. snd q = map (take MAX_INPUT) (take BATCH_SIZE (drop b' U))"
    by auto
  show ?case
  proof (cases x)
    case (Inl e)
    with eb "1.prems"(1) have "w' = w1" by (simp add: batch_loop_fail)
    with ext1 show ?thesis by blast
  next
    case (Inr result)
    obtain R1 C1 where st: "foldl (store_step ?batch ?bidx result) (R, C) [0 ..< length ?batch] = (R1, C1)"
      by (cases "foldl (store_step ?batch ?bidx result) (R, C) [0 ..< length ?batch]")
    note step = batch_loop_step[OF eb[unfolded Inr] st]
    show ?thesis
    proof (cases "b + BATCH_SIZE < length U")
      case False
      with step "1.prems"(1) have "w' = w1" by simp
      with ext1 show ?thesis by blast
    next
      case True
      with step "1.prems"(1) have "batch_loop env U I (b + BATCH_SIZE) R1 C1 w1 = (res, C', w')"
        by simp
      from "1.IH"[OF refl refl eb[symmetric] Inr st[symmetric] True this True]
      obtain ext2 where ext2: "w' = w1 @ ext2"
        "\<forall>q\<in>set ext2. \<exists>b'<length U. snd q = map (take MAX_INPUT) (take BATCH_SIZE (drop b' U))" by blast
      from ext1 ext2 have "w' = w @ (ext1 @ ext2)" by simp
      moreover from ext1 ext2 have
        "\<forall>q\<in>set (ext1 @ ext2). \<exists>b'<length U. snd q = map (take MAX_INPUT) (take BATCH_SIZE (drop b' U))"
        by auto
      ultimately show ?thesis by blast
    qed
  qed
qed

lemma batch_loop_shape:
  "batch_loop env U I b R C w = (res, C', w') \<Longrightarrow>
     (case res of
        Inr r \<Rightarrow> length (embeddings r) = length R
      | Inl e \<Rightarrow> \<exists>ge oe. e = Error (combined_message ge oe))"
proof (induction env U I b R C w arbitrary: rule: batch_loop.induct)
  case (1 env U I b R C w)
  let ?batch = "take BATCH_SIZE (drop b U)"
  let ?bidx = "take BATCH_SIZE (drop b I)"
  obtain x w1 where eb: "embed_batch env ?batch w = (x, w1)"
    by (cases "embed_batch env ?batch w")
  show ?case
  proof (cases x)
    case (Inl e)
    with eb "1.prems" have "res = Inl e" by (simp add: batch_loop_fail)
    with embed_batch_error[OF eb[unfolded Inl]] show ?thesis by auto
  next
    case (Inr result)
    obtain R1 C1 where st: "foldl (store_step ?batch ?bidx result) (R, C) [0 ..< length ?batch] = (R1, C1)"
      by (cases "foldl (store_step ?batch ?bidx result) (R, C) [0 ..< length ?batch]")
    note step = batch_loop_step[OF eb[unfolded Inr] st]
    have len: "length R1 = length R" using st by (rule store_foldl_length)
    show ?thesis
    proof (cases "b + BATCH_SIZE < length U")
      case False
      with step "1.prems" len show ?thesis by auto
    next
      case True
      with step "1.prems" have "batch_loop env U I (b + BATCH_SIZE) R1 C1 w1 = (res, C', w')"
        by simp
      from "1.IH"[OF refl refl eb[symmetric] Inr st[symmetric] True this] len
      show ?thesis by (cases res) simp_all
    qed
  qed
qed

lemma retry_first_request:
  assumes app: "\<And>w. snd (fn w) = w @ [q]" and run: "retry fn w = (r, w')"
  shows "\<exists>k. w' = w @ q # replicate k q"
proof -
  obtain x w1 where f: "fn w = (x, w1)" by (cases "fn w")
  with app[of w] have w1: "w1 = w @ [q]" by simp
  show ?thesis
  proof (cases x)
    case (Inr a)
    with run f w1 have "w' = w @ q # replicate 0 q"
      by (simp add: retry_def retry_from.simps[of 3 0])
    then show ?thesis by blast
  next
    case (Inl err)
    with run f have "retry_from 3 (0 + 1) fn w1 = (r, w')"
      by (simp add: retry_def retry_from.simps[of 3 0])
    from retry_from_log[OF app this] obtain k where "w' = w1 @ replicate k q" by blast
    with w1 have "w' = w @ q # replicate k q" by simp
    then show ?thesis by blast
  qed
qed

lemma embedOpenAI_first_request:
  assumes "OPENAI_API_KEY env" "embedOpenAI env batch w = (r, w')"
  shows "\<exists>k. w' = w @ (''openai'', map (take MAX_INPUT) batch) #
           replicate k (''openai'', map (take MAX_INPUT) batch)"
proof -
  obtain x w1 where rt: "retry (openai_request env (map (take MAX_INPUT) batch)) w = (x, w1)"
    by (cases "retry (openai_request env (map (take MAX_INPUT) batch)) w")
  have "\<And>w. snd (openai_request env (map (take MAX_INPUT) batch) w) =
      w @ [(''openai'', map (take MAX_INPUT) batch)]"
    by (simp add: openai_request_def split: sum.splits)
  from retry_first_request[OF this rt]
  obtain k where "w1 = w @ (''openai'', map (take MAX_INPUT) batch) #
      replicate k (''openai'', map (take MAX_INPUT) batch)" by blast
  moreover from assms rt have "w' = w1"
    by (auto simp: embedOpenAI_def Let_def split: sum.splits option.splits list.splits)
  ultimately show ?thesis by blast
qed

text \<open>\<open>embedTexts\<close> after its first loop.\<close>

lemma embedTexts_unfold:
  "\<exists>C1. map_of C1 = map_of c \<and>
     embedTexts env texts (c, w) =
       (if uncached_of c texts = [] then
          (case map (map_of c) texts of
             [] \<Rightarrow> (Inl undefined_read, C1, w)
           | None # _ \<Rightarrow> (Inl undefined_read, C1, w)
           | Some r0 # _ \<Rightarrow>
               (Inr \<lparr>dim = dim r0, provider = provider r0, model = model r0,
                     embeddings = map embedding_of (map (map_of c) texts)\<rparr>, C1, w))
        else batch_loop env (uncached_of c texts) (uncached_idx_of c texts) 0
               (map (map_of c) texts) C1 w)"
proof -
  obtain R U I C1 where
    sc: "foldl (scan_step texts) (replicate (length texts) None, [], [], c) [0 ..< length texts] =
           (R, U, I, C1)"
    by (cases "foldl (scan_step texts) (replicate (length texts) None, [], [], c) [0 ..< length texts]")
  note s = scan_all[OF sc]
  have "embedTexts env texts (c, w) =
       (if uncached_of c texts = [] then
          (case map (map_of c) texts of
             [] \<Rightarrow> (Inl undefined_read, C1, w)
           | None # _ \<Rightarrow> (Inl undefined_read, C1, w)
           | Some r0 # _ \<Rightarrow>
               (Inr \<lparr>dim = dim r0, provider = provider r0, model = model r0,
                     embeddings = map embedding_of (map (map_of c) texts)\<rparr>, C1, w))
        else batch_loop env (uncached_of c texts) (uncached_idx_of c texts) 0
               (map (map_of c) texts) C1 w)"
    unfolding embedTexts_def by (simp only: prod.case sc s length_0_conv)
  with s(1) show ?thesis by blast
qed

lemma embedTexts_shape:
  assumes "embedTexts env texts (c, w) = (res, c', w')"
  shows "case res of
           Inr r \<Rightarrow> length (embeddings r) = length texts
         | Inl e \<Rightarrow> texts = [] \<or> (\<exists>ge oe. e = Error (combined_message ge oe))"
proof -
  from embedTexts_unfold[of c env texts w] obtain C1 where
    u: "embedTexts env texts (c, w) =
       (if uncached_of c texts = [] then
          (case map (map_of c) texts of
             [] \<Rightarrow> (Inl undefined_read, C1, w)
           | None # _ \<Rightarrow> (Inl undefined_read, C1, w)
           | Some r0 # _ \<Rightarrow>
               (Inr \<lparr>dim = dim r0, provider = provider r0, model = model r0,
                     embeddings = map embedding_of (map (map_of c) texts)\<rparr>, C1, w))
        else batch_loop env (uncached_of c texts) (uncached_idx_of c texts) 0
               (map (map_of c) texts) C1 w)" by blast
  show ?thesis
  proof (cases "uncached_of c texts = []")
    case False
    with u assms have "batch_loop env (uncached_of c texts) (uncached_idx_of c texts) 0
               (map (map_of c) texts) C1 w = (res, c', w')" by simp
    from batch_loop_shape[OF this] show ?thesis by (cases res) auto
  next
    case True
    show ?thesis
    proof (cases texts)
      case Nil
      with u assms True show ?thesis by (auto simp: uncached_of_def)
    next
      case (Cons t ts)
      with True have "map_of c t \<noteq> None" by (auto simp: uncached_of_def split: if_splits)
      then obtain r0 where "map_of c t = Some r0" by blast
      with u assms True Cons show ?thesis by auto
    qed
  qed
qed

text \<open>What a successful batch holds when the providers are aligned.\<close>

lemma retry_from_result:
  "(\<And>w x w1. fn w = (Inr x, w1) \<Longrightarrow> Q x) \<Longrightarrow> retry_from n i fn w = (Inr (Some res), w') \<Longrightarrow> Q res"
proof (induction n i fn w rule: retry_from.induct)
  case (1 attempts i fn w)
  note q = "1.prems"(1) and run = "1.prems"(2)
  from run have lt: "i < attempts"
    by (auto simp: retry_from.simps[of attempts i] split: if_splits)
  obtain x w1 where f: "fn w = (x, w1)" by (cases "fn w")
  show ?case
  proof (cases x)
    case (Inr a)
    with run lt f have "res = a" by (simp add: retry_from.simps[of attempts i])
    with q[of w a w1] f Inr show ?thesis by simp
  next
    case (Inl err)
    with run lt f have ne: "i \<noteq> attempts - 1"
      and rec: "retry_from attempts (i + 1) fn w1 = (Inr (Some res), w')"
      by (auto simp: retry_from.simps[of attempts i] split: if_splits)
    from "1.IH"[OF lt f[symmetric] Inl ne q rec] show ?thesis by simp
  qed
qed

lemma embedGemini_aligned:
  assumes "aligned env E" "embedGemini env batch w = (Inr result, w')"
  shows "vectors result = map (\<lambda>t. E (take MAX_INPUT t)) batch"
proof -
  let ?req = "map (take MAX_INPUT) batch"
  from assms(2) obtain res w1 where
    rt: "retry (gemini_request env ?req) w = (Inr (Some res), w1)" and v: "vectors result = res"
    by (auto simp: embedGemini_def Let_def split: if_splits prod.splits sum.splits option.splits list.splits)
  have "gemini_fetch env n ?req = Inr x \<Longrightarrow> x = map E ?req" for n x
    using assms(1) unfolding aligned_def by blast
  then have "\<And>w x w1. gemini_request env ?req w = (Inr x, w1) \<Longrightarrow> x = map E ?req"
    unfolding gemini_request_def by (simp split: sum.splits)
  from retry_from_result[of "gemini_request env ?req" "\<lambda>x. x = map E ?req", OF this rt[unfolded retry_def]]
  have "res = map E ?req" .
  with v show ?thesis by (simp add: comp_def)
qed

lemma embedOpenAI_aligned:
  assumes "aligned env E" "embedOpenAI env batch w = (Inr result, w')"
  shows "vectors result = map (\<lambda>t. E (take MAX_INPUT t)) batch"
proof -
  let ?req = "map (take MAX_INPUT) batch"
  from assms(2) obtain res w1 where
    rt: "retry (openai_request env ?req) w = (Inr (Some res), w1)"
    and v: "vectors result = map snd (sort_key fst res)"
    by (auto simp: embedOpenAI_def Let_def split: if_splits prod.splits sum.splits option.splits list.splits)
  have "openai_fetch env n ?req = Inr x \<Longrightarrow> map snd (sort_key fst x) = map E ?req" for n x
    using assms(1) unfolding aligned_def by blast
  then have "\<And>w x w1. openai_request env ?req w = (Inr x, w1) \<Longrightarrow> map snd (sort_key fst x) = map E ?req"
    unfolding openai_request_def by (simp split: sum.splits)
  from retry_from_result[of "openai_request env ?req" "\<lambda>x. map snd (sort_key fst x) = map E ?req",
      OF this rt[unfolded retry_def]]
  have "map snd (sort_key fst res) = map E ?req" .
  with v show ?thesis by (simp add: comp_def)
qed

lemma embed_batch_aligned:
  assumes "aligned env E" "embed_batch env batch w = (Inr result, w')"
  shows "vectors result = map (\<lambda>t. E (take MAX_INPUT t)) batch"
proof -
  obtain x w1 where g: "embedGemini env batch w = (x, w1)" by (cases "embedGemini env batch w")
  show ?thesis
  proof (cases x)
    case (Inr a)
    with assms(2) g have "embedGemini env batch w = (Inr result, w')" by (simp add: embed_batch_def)
    with assms(1) show ?thesis by (rule embedGemini_aligned)
  next
    case (Inl ge)
    with assms(2) g have "embedOpenAI env batch w1 = (Inr result, w')"
      by (auto simp: embed_batch_def split: prod.splits sum.splits)
    with assms(1) show ?thesis by (rule embedOpenAI_aligned)
  qed
qed

text \<open>The loop that stores a batch: the slots it writes and the slots it leaves.\<close>

lemma store_foldl_slots:
  assumes "foldl (store_step batch bidx result) (R, C) js = (R', C')"
    and "distinct (map (\<lambda>j. bidx ! j) js)" and "\<forall>j\<in>set js. bidx ! j < length R"
  shows "(\<forall>j\<in>set js. R' ! (bidx ! j) =
            Some \<lparr>dim = dim result, provider = provider result, model = model result,
                  embedding = nth_opt (vectors result) j\<rparr>) \<and>
         (\<forall>i. i \<notin> (\<lambda>j. bidx ! j) ` set js \<longrightarrow> R' ! i = R ! i)"
  using assms
proof (induction js arbitrary: R C)
  case Nil
  then show ?case by simp
next
  case (Cons j js)
  let ?e = "\<lparr>dim = dim result, provider = provider result, model = model result,
             embedding = nth_opt (vectors result) j\<rparr>"
  let ?R1 = "R[bidx ! j := Some ?e]"
  have step: "store_step batch bidx result (R, C) j = (?R1, cache_set C (batch ! j) ?e)"
    by (simp add: store_step_def Let_def)
  from Cons.prems(1) have run: "foldl (store_step batch bidx result) (?R1, cache_set C (batch ! j) ?e) js = (R', C')"
    by (simp only: foldl.simps step)
  from Cons.prems(2) have d: "distinct (map (\<lambda>j. bidx ! j) js)" and nj: "bidx ! j \<notin> (\<lambda>j. bidx ! j) ` set js"
    by auto
  from Cons.prems(3) have b: "\<forall>j\<in>set js. bidx ! j < length ?R1" and bj: "bidx ! j < length R"
    by auto
  note IH = Cons.IH[OF run d b]
  from IH nj have "R' ! (bidx ! j) = ?R1 ! (bidx ! j)" by blast
  with bj have 1: "R' ! (bidx ! j) = Some ?e" by simp
  have 2: "R' ! i = R ! i" if "i \<notin> (\<lambda>j. bidx ! j) ` set (j # js)" for i
  proof -
    from that have "i \<notin> (\<lambda>j. bidx ! j) ` set js" "i \<noteq> bidx ! j" by auto
    with IH have "R' ! i = ?R1 ! i" by blast
    with \<open>i \<noteq> bidx ! j\<close> show ?thesis by simp
  qed
  from 1 2 IH show ?case by auto
qed

lemma store_batch_slots:
  assumes len: "length I = length U" and dist: "distinct I" and bound: "\<forall>i\<in>set I. i < length R"
    and run: "foldl (store_step (take BATCH_SIZE (drop b U)) (take BATCH_SIZE (drop b I)) result) (R, C)
           [0 ..< length (take BATCH_SIZE (drop b U))] = (R1, C1)"
  shows "length R1 = length R"
    and "vectors result = map (\<lambda>t. E (take MAX_INPUT t)) (take BATCH_SIZE (drop b U)) \<Longrightarrow>
         \<forall>k. b \<le> k \<and> k < b + BATCH_SIZE \<and> k < length U \<longrightarrow>
           embedding_of (R1 ! (I ! k)) = Some (E (take MAX_INPUT (U ! k)))"
    and "\<forall>i. i \<notin> set (take BATCH_SIZE (drop b I)) \<longrightarrow> R1 ! i = R ! i"
proof -
  let ?batch = "take BATCH_SIZE (drop b U)"
  let ?bidx = "take BATCH_SIZE (drop b I)"
  have lb: "length ?bidx = length ?batch" using len by simp
  have m: "map (\<lambda>j. ?bidx ! j) [0 ..< length ?batch] = ?bidx"
    unfolding lb[symmetric] by (rule map_nth)
  have d: "distinct (map (\<lambda>j. ?bidx ! j) [0 ..< length ?batch])"
    unfolding m using dist by simp
  have "set ?bidx \<subseteq> set I" by (meson set_drop_subset set_take_subset subset_trans)
  with bound have bb: "\<forall>j\<in>set [0 ..< length ?batch]. ?bidx ! j < length R"
    using lb by (metis atLeastLessThan_iff nth_mem set_upt subsetD)
  note slots = store_foldl_slots[OF run d bb]
  show "length R1 = length R" using run by (rule store_foldl_length)
  have img: "(\<lambda>j. ?bidx ! j) ` set [0 ..< length ?batch] = set ?bidx"
    using m by (metis set_map)
  from slots img show "\<forall>i. i \<notin> set ?bidx \<longrightarrow> R1 ! i = R ! i" by simp
  assume vec: "vectors result = map (\<lambda>t. E (take MAX_INPUT t)) (take BATCH_SIZE (drop b U))"
  show "\<forall>k. b \<le> k \<and> k < b + BATCH_SIZE \<and> k < length U \<longrightarrow>
           embedding_of (R1 ! (I ! k)) = Some (E (take MAX_INPUT (U ! k)))"
  proof (intro allI impI)
    fix k assume k: "b \<le> k \<and> k < b + BATCH_SIZE \<and> k < length U"
    define j where "j = k - b"
    from k have j: "j < length ?batch" "k = b + j" by (auto simp: j_def)
    moreover from k len have "b \<le> length U" "b \<le> length I" by simp_all
    ultimately have bj: "?bidx ! j = I ! k" "?batch ! j = U ! k" by simp_all
    from slots j have "R1 ! (?bidx ! j) =
        Some \<lparr>dim = dim result, provider = provider result, model = model result,
              embedding = nth_opt (vectors result) j\<rparr>" by simp
    moreover have "nth_opt (vectors result) j = Some (E (take MAX_INPUT (?batch ! j)))"
      using j(1) unfolding vec nth_opt_def by simp
    ultimately show "embedding_of (R1 ! (I ! k)) = Some (E (take MAX_INPUT (U ! k)))"
      using bj by (simp add: embedding_of_def)
  qed
qed

lemma distinct_nth_notin_drop:
  assumes "distinct xs" "k < n" "k < length xs"
  shows "xs ! k \<notin> set (drop n xs)"
proof
  assume "xs ! k \<in> set (drop n xs)"
  then obtain m where m: "m < length (drop n xs)" "drop n xs ! m = xs ! k"
    by (auto simp: in_set_conv_nth)
  then have "xs ! (n + m) = xs ! k" "n + m < length xs" by auto
  with assms have "n + m = k" by (simp add: nth_eq_iff_index_eq)
  with assms(2) show False by simp
qed

lemma batch_loop_positions:
  "batch_loop env U I b R C w = (Inr r, C', w') \<Longrightarrow>
   length I = length U \<Longrightarrow> distinct I \<Longrightarrow> (\<forall>i\<in>set I. i < length R) \<Longrightarrow>
     (aligned env E \<longrightarrow>
        (\<forall>k. b \<le> k \<and> k < length U \<longrightarrow> embeddings r ! (I ! k) = Some (E (take MAX_INPUT (U ! k))))) \<and>
     (\<forall>i<length R. i \<notin> set (drop b I) \<longrightarrow> embeddings r ! i = embedding_of (R ! i))"
proof (induction env U I b R C w rule: batch_loop.induct)
  case (1 env U I b R C w)
  note run = "1.prems"(1) and len = "1.prems"(2)
    and dist = "1.prems"(3) and bound = "1.prems"(4)
  let ?batch = "take BATCH_SIZE (drop b U)"
  let ?bidx = "take BATCH_SIZE (drop b I)"
  obtain x w1 where eb: "embed_batch env ?batch w = (x, w1)"
    by (cases "embed_batch env ?batch w")
  show ?case
  proof (cases x)
    case (Inl e)
    with eb run show ?thesis by (simp add: batch_loop_fail)
  next
    case (Inr result)
    obtain R1 C1 where st: "foldl (store_step ?batch ?bidx result) (R, C) [0 ..< length ?batch] = (R1, C1)"
      by (cases "foldl (store_step ?batch ?bidx result) (R, C) [0 ..< length ?batch]")
    note step = batch_loop_step[OF eb[unfolded Inr] st]
    have vec: "vectors result = map (\<lambda>t. E (take MAX_INPUT t)) ?batch" if "aligned env E"
      using that eb[unfolded Inr] by (rule embed_batch_aligned)
    note slots = store_batch_slots[OF len dist bound st]
    have sub: "set ?bidx \<subseteq> set (drop b I)" by (rule set_take_subset)
    have bound1: "\<forall>i\<in>set I. i < length R1" using bound slots(1) by simp
    have inR: "I ! k < length R" if "k < length U" for k
      using that bound len by simp
    show ?thesis
    proof (cases "b + BATCH_SIZE < length U")
      case False
      with step run have r: "embeddings r = map embedding_of R1" by auto
      show ?thesis
      proof (intro conjI allI impI)
        fix k assume al: "aligned env E" and k: "b \<le> k \<and> k < length U"
        with False have "b \<le> k \<and> k < b + BATCH_SIZE \<and> k < length U" by simp
        with slots(2)[OF vec[OF al]] have "embedding_of (R1 ! (I ! k)) = Some (E (take MAX_INPUT (U ! k)))" by blast
        with inR[of k] k slots(1) show "embeddings r ! (I ! k) = Some (E (take MAX_INPUT (U ! k)))"
          by (simp add: r)
      next
        fix i assume i: "i < length R" "i \<notin> set (drop b I)"
        with sub have "i \<notin> set ?bidx" by blast
        with slots(3) have "R1 ! i = R ! i" by blast
        with i slots(1) show "embeddings r ! i = embedding_of (R ! i)" by (simp add: r)
      qed
    next
      case True
      with step run have rec: "batch_loop env U I (b + BATCH_SIZE) R1 C1 w1 = (Inr r, C', w')"
        by simp
      note IH = "1.IH"[OF refl refl eb[symmetric] Inr st[symmetric] True rec len dist bound1]
      show ?thesis
      proof (intro conjI allI impI)
        fix k assume al: "aligned env E" and k: "b \<le> k \<and> k < length U"
        show "embeddings r ! (I ! k) = Some (E (take MAX_INPUT (U ! k)))"
        proof (cases "b + BATCH_SIZE \<le> k")
          case True
          with IH k al show ?thesis by blast
        next
          case False
          with k have kk: "b \<le> k \<and> k < b + BATCH_SIZE \<and> k < length U" by simp
          with slots(2)[OF vec[OF al]] have e: "embedding_of (R1 ! (I ! k)) = Some (E (take MAX_INPUT (U ! k)))" by blast
          from kk len have "I ! k \<notin> set (drop (b + BATCH_SIZE) I)"
            by (intro distinct_nth_notin_drop dist) simp_all
          moreover have "I ! k < length R1" using inR[of k] k slots(1) by simp
          ultimately have "embeddings r ! (I ! k) = embedding_of (R1 ! (I ! k))" using IH by blast
          with e show ?thesis by simp
        qed
      next
        fix i assume i: "i < length R" "i \<notin> set (drop b I)"
        with sub have "i \<notin> set ?bidx" by blast
        with slots(3) have eq: "R1 ! i = R ! i" by blast
        have "set (drop (b + BATCH_SIZE) I) \<subseteq> set (drop b I)"
          by (metis add.commute drop_drop set_drop_subset)
        with i have "i \<notin> set (drop (b + BATCH_SIZE) I)" by blast
        with IH i(1) slots(1) have "embeddings r ! i = embedding_of (R1 ! i)" by simp
        with eq show "embeddings r ! i = embedding_of (R ! i)" by simp
      qed
    qed
  qed
qed

lemma uncached_idx_facts:
  "length (uncached_idx_of c texts) = length (uncached_of c texts)"
  "distinct (uncached_idx_of c texts)"
  "\<forall>i\<in>set (uncached_idx_of c texts). i < length texts"
  "set (uncached_idx_of c texts) = {i. i < length texts \<and> map_of c (texts ! i) = None}"
  "k < length (uncached_idx_of c texts) \<Longrightarrow>
     uncached_of c texts ! k = texts ! (uncached_idx_of c texts ! k)"
proof -
  have m: "map (\<lambda>i. texts ! i) (uncached_idx_of c texts) = uncached_of c texts"
    unfolding uncached_idx_of_def uncached_of_def
    by (rule map_nth_filter_upt[of texts "\<lambda>t. map_of c t = None"])
  show "length (uncached_idx_of c texts) = length (uncached_of c texts)"
    using arg_cong[OF m, of length] by simp
  show "distinct (uncached_idx_of c texts)" by (simp add: uncached_idx_of_def)
  show "\<forall>i\<in>set (uncached_idx_of c texts). i < length texts" by (simp add: uncached_idx_of_def)
  show "set (uncached_idx_of c texts) = {i. i < length texts \<and> map_of c (texts ! i) = None}"
    by (auto simp: uncached_idx_of_def)
  show "uncached_of c texts ! k = texts ! (uncached_idx_of c texts ! k)"
    if "k < length (uncached_idx_of c texts)"
    using that unfolding m[symmetric] by simp
qed

lemma embedTexts_all_cached:
  assumes "uncached_of c texts = []" "texts \<noteq> []"
  shows "\<exists>C1 r0. map_of C1 = map_of c \<and> map_of c (hd texts) = Some r0 \<and>
     embedTexts env texts (c, w) =
       (Inr \<lparr>dim = dim r0, provider = provider r0, model = model r0,
             embeddings = map embedding_of (map (map_of c) texts)\<rparr>, C1, w)"
proof -
  from embedTexts_unfold[of c env texts w] assms(1) obtain C1 where
    C1: "map_of C1 = map_of c" and
    u: "embedTexts env texts (c, w) =
          (case map (map_of c) texts of
             [] \<Rightarrow> (Inl undefined_read, C1, w)
           | None # _ \<Rightarrow> (Inl undefined_read, C1, w)
           | Some r0 # _ \<Rightarrow>
               (Inr \<lparr>dim = dim r0, provider = provider r0, model = model r0,
                     embeddings = map embedding_of (map (map_of c) texts)\<rparr>, C1, w))"
    by auto
  from assms obtain t ts where t: "texts = t # ts" by (cases texts) auto
  with assms(1) have "map_of c t \<noteq> None" by (auto simp: uncached_of_def split: if_splits)
  then obtain r0 where r0: "map_of c t = Some r0" by blast
  with u t have "embedTexts env texts (c, w) =
       (Inr \<lparr>dim = dim r0, provider = provider r0, model = model r0,
             embeddings = map embedding_of (map (map_of c) texts)\<rparr>, C1, w)" by simp
  with C1 r0 t show ?thesis by auto
qed

lemma embedTexts_some_uncached:
  assumes "uncached_of c texts \<noteq> []"
  shows "\<exists>C1. map_of C1 = map_of c \<and>
     embedTexts env texts (c, w) =
       batch_loop env (uncached_of c texts) (uncached_idx_of c texts) 0 (map (map_of c) texts) C1 w"
  using embedTexts_unfold[of c env texts w] assms by auto

lemma embedTexts_requests:
  assumes "embedTexts env texts (c, w) = (res, c', w')"
  shows "\<exists>ext. w' = w @ ext \<and>
       (\<forall>q\<in>set ext. \<exists>b<length (uncached_of c texts).
          snd q = map (take MAX_INPUT) (take BATCH_SIZE (drop b (uncached_of c texts))))"
    and "uncached_of c texts = [] \<Longrightarrow> w' = w"
proof -
  have *: "w' = w" if "uncached_of c texts = []"
  proof (cases "texts = []")
    case True
    with assms show ?thesis by (simp add: embedTexts_def)
  next
    case False
    from embedTexts_all_cached[OF that False, of env w] assms show ?thesis by auto
  qed
  then show "uncached_of c texts = [] \<Longrightarrow> w' = w" .
  show "\<exists>ext. w' = w @ ext \<and>
       (\<forall>q\<in>set ext. \<exists>b<length (uncached_of c texts).
          snd q = map (take MAX_INPUT) (take BATCH_SIZE (drop b (uncached_of c texts))))"
  proof (cases "uncached_of c texts = []")
    case True
    with * have "w' = w @ []" by simp
    then show ?thesis by force
  next
    case False
    from embedTexts_some_uncached[OF False, of env w] assms obtain C1 where
      "batch_loop env (uncached_of c texts) (uncached_idx_of c texts) 0 (map (map_of c) texts) C1 w =
         (res, c', w')" by auto
    from batch_loop_log[OF this] False show ?thesis by simp
  qed
qed

lemma embedTexts_positions:
  assumes "embedTexts env texts (c, w) = (Inr r, c', w')"
  shows "length (embeddings r) = length texts"
    and "\<forall>i<length texts. \<forall>e. map_of c (texts ! i) = Some e \<longrightarrow> embeddings r ! i = embedding e"
    and "aligned env E \<Longrightarrow> \<forall>i<length texts. map_of c (texts ! i) = None \<longrightarrow>
           embeddings r ! i = Some (E (take MAX_INPUT (texts ! i)))"
proof -
  show "length (embeddings r) = length texts"
    using embedTexts_shape[OF assms] by simp
  have both: "(\<forall>i<length texts. \<forall>e. map_of c (texts ! i) = Some e \<longrightarrow> embeddings r ! i = embedding e) \<and>
      (aligned env E \<longrightarrow> (\<forall>i<length texts. map_of c (texts ! i) = None \<longrightarrow>
           embeddings r ! i = Some (E (take MAX_INPUT (texts ! i)))))"
  proof (cases "uncached_of c texts = []")
    case True
    then have hit: "\<forall>i<length texts. map_of c (texts ! i) \<noteq> None"
      by (auto simp: uncached_of_def filter_empty_conv)
    have "texts \<noteq> []" using assms by (auto simp: embedTexts_def)
    from embedTexts_all_cached[OF True this, of env w] assms
    have "embeddings r = map embedding_of (map (map_of c) texts)" by auto
    with hit show ?thesis by (auto simp: embedding_of_def)
  next
    case False
    let ?U = "uncached_of c texts" and ?I = "uncached_idx_of c texts"
    from embedTexts_some_uncached[OF False, of env w] assms obtain C1 where
      run: "batch_loop env ?U ?I 0 (map (map_of c) texts) C1 w = (Inr r, c', w')" by auto
    have bound: "\<forall>i\<in>set ?I. i < length (map (map_of c) texts)"
      using uncached_idx_facts(3)[of c texts] by simp
    note pos = batch_loop_positions[OF run uncached_idx_facts(1,2) bound, of E]
    show ?thesis
    proof (intro conjI allI impI)
      fix i e assume i: "i < length texts" "map_of c (texts ! i) = Some e"
      then have "i \<notin> set (drop 0 ?I)" by (simp add: uncached_idx_facts(4))
      with pos i(1) have "embeddings r ! i = embedding_of (map (map_of c) texts ! i)" by simp
      with i show "embeddings r ! i = embedding e" by (simp add: embedding_of_def)
    next
      fix i assume al: "aligned env E" and i: "i < length texts" "map_of c (texts ! i) = None"
      then have "i \<in> set ?I" by (simp add: uncached_idx_facts(4))
      then obtain k where k: "k < length ?I" "?I ! k = i" by (auto simp: in_set_conv_nth)
      have "embeddings r ! (?I ! k) = Some (E (take MAX_INPUT (?U ! k)))"
        using pos al k(1) uncached_idx_facts(1)[of c texts] by simp
      then show "embeddings r ! i = Some (E (take MAX_INPUT (texts ! i)))"
        using k(2) uncached_idx_facts(5)[OF k(1)] by simp
    qed
  qed
  from both show "\<forall>i<length texts. \<forall>e. map_of c (texts ! i) = Some e \<longrightarrow> embeddings r ! i = embedding e"
    by blast
  from both show "aligned env E \<Longrightarrow> \<forall>i<length texts. map_of c (texts ! i) = None \<longrightarrow>
           embeddings r ! i = Some (E (take MAX_INPUT (texts ! i)))"
    by blast
qed

lemma embedTexts_twice:
  assumes "embedTexts env [t] (c, w) = (Inr r, c1, w1)"
  shows "\<exists>c2. embedTexts env [t] (c1, w1) = (Inr r, c2, w1)"
proof -
  have second: "\<exists>c2. embedTexts env [t] (c1, w1) =
      (Inr \<lparr>dim = dim e, provider = provider e, model = model e, embeddings = [embedding e]\<rparr>, c2, w1)"
    if "map_of c1 t = Some e" for e
  proof -
    from that have "uncached_of c1 [t] = []" by (simp add: uncached_of_def)
    from embedTexts_all_cached[OF this, of env w1] that show ?thesis
      by (auto simp: embedding_of_def)
  qed
  show ?thesis
  proof (cases "map_of c t")
    case (Some e)
    then have "uncached_of c [t] = []" by (simp add: uncached_of_def)
    from embedTexts_all_cached[OF this, of env w] Some assms obtain C1 where
      "map_of C1 = map_of c" "c1 = C1" "w1 = w"
      "r = \<lparr>dim = dim e, provider = provider e, model = model e, embeddings = [embedding e]\<rparr>"
      by (auto simp: embedding_of_def)
    with Some second[of e] show ?thesis by simp
  next
    case None
    then have U: "uncached_of c [t] = [t]" "uncached_idx_of c [t] = [0]"
      by (simp_all add: uncached_of_def uncached_idx_of_def)
    from embedTexts_some_uncached[of c "[t]" env w] U None assms obtain C1 where
      run: "batch_loop env [t] [0] 0 [None] C1 w = (Inr r, c1, w1)" by auto
    have tk: "take BATCH_SIZE (drop 0 [t]) = [t]" "take BATCH_SIZE (drop 0 [0::nat]) = [0]"
      by (simp_all add: BATCH_SIZE_def)
    obtain x w' where eb: "embed_batch env (take BATCH_SIZE (drop 0 [t])) w = (x, w')"
      by (cases "embed_batch env (take BATCH_SIZE (drop 0 [t])) w")
    show ?thesis
    proof (cases x)
      case (Inl e)
      with eb have "batch_loop env [t] [0] 0 [None] C1 w = (Inl e, C1, w')"
        by (intro batch_loop_fail) simp
      with run show ?thesis by simp
    next
      case (Inr result)
      let ?e = "\<lparr>dim = dim result, provider = provider result, model = model result,
                 embedding = nth_opt (vectors result) 0\<rparr>"
      have st: "foldl (store_step (take BATCH_SIZE (drop 0 [t])) (take BATCH_SIZE (drop 0 [0])) result)
          ([None], C1) [0 ..< length (take BATCH_SIZE (drop 0 [t]))] = ([Some ?e], cache_set C1 t ?e)"
        unfolding tk by (simp add: store_step_def Let_def)
      from batch_loop_step[OF eb[unfolded Inr] st] run
      have "r = \<lparr>dim = dim result, provider = provider result, model = model result,
                 embeddings = [embedding ?e]\<rparr>" "c1 = cache_set C1 t ?e" "w1 = w'"
        by (simp_all add: BATCH_SIZE_def embedding_of_def)
      with second[of ?e] cache_set_map_of[of C1 t ?e] show ?thesis by simp
    qed
  qed
qed

lemma aligned_cache_demo_net: "aligned cache_demo_net text_length_vec"
proof -
  have "map snd (sort_key fst (zip (map int [0 ..< length ts]) (map text_length_vec ts))) =
      map text_length_vec ts" for ts :: "string list"
  proof -
    have "sorted (map fst (zip (map int [0 ..< length ts]) (map text_length_vec ts)))"
      by (simp add: sorted_map)
    then have "sort_key fst (zip (map int [0 ..< length ts]) (map text_length_vec ts)) =
        zip (map int [0 ..< length ts]) (map text_length_vec ts)"
      by (rule sort_key_id_if_sorted)
    then show ?thesis by simp
  qed
  then show ?thesis
    by (auto simp: aligned_def cache_demo_net_def split: if_splits)
qed

text \<open>A provider that fails whenever it is asked makes every retry fail.\<close>

lemma retry_from_all_fail:
  assumes "\<And>w. isl (fst (fn w))" "i < attempts"
  shows "isl (fst (retry_from attempts i fn w))"
  using assms(2)
proof (induction "attempts - i" arbitrary: i w)
  case 0
  then show ?case by simp
next
  case (Suc d)
  obtain x w1 where f: "fn w = (x, w1)" by (cases "fn w")
  with assms(1)[of w] obtain err where x: "x = Inl err" by (cases x) auto
  show ?case
  proof (cases "i = attempts - 1")
    case True
    with Suc.prems f x show ?thesis by (simp add: retry_from.simps[of attempts i])
  next
    case False
    with Suc.prems have lt: "i + 1 < attempts" by simp
    from Suc.hyps(2) have "d = attempts - (i + 1)" by simp
    from Suc.hyps(1)[OF this lt] have "isl (fst (retry_from attempts (i + 1) fn w1))" .
    with Suc.prems f x False show ?thesis by (simp add: retry_from.simps[of attempts i])
  qed
qed

lemma embedGemini_all_fail:
  assumes "\<forall>n. isl (gemini_fetch env n (map (take MAX_INPUT) batch))"
  shows "isl (fst (embedGemini env batch w))"
proof (cases "GEMINI_API_KEY env")
  case False
  then show ?thesis by (simp add: embedGemini_def)
next
  case True
  have "isl (fst (gemini_request env (map (take MAX_INPUT) batch) w))" for w
    using assms[rule_format, of "length w"] by (auto simp: gemini_request_def split: sum.splits)
  then have "isl (fst (retry (gemini_request env (map (take MAX_INPUT) batch)) w))"
    unfolding retry_def by (rule retry_from_all_fail) simp
  then show ?thesis
    by (auto simp: embedGemini_def Let_def split: prod.splits sum.splits option.splits list.splits)
qed

lemma embedOpenAI_all_fail:
  assumes "\<forall>n. isl (openai_fetch env n (map (take MAX_INPUT) batch))"
  shows "isl (fst (embedOpenAI env batch w))"
proof (cases "OPENAI_API_KEY env")
  case False
  then show ?thesis by (simp add: embedOpenAI_def)
next
  case True
  have "isl (fst (openai_request env (map (take MAX_INPUT) batch) w))" for w
    using assms[rule_format, of "length w"] by (auto simp: openai_request_def split: sum.splits)
  then have "isl (fst (retry (openai_request env (map (take MAX_INPUT) batch)) w))"
    unfolding retry_def by (rule retry_from_all_fail) simp
  then show ?thesis
    by (auto simp: embedOpenAI_def Let_def split: prod.splits sum.splits option.splits list.splits)
qed

lemma embed_batch_all_fail:
  assumes "\<forall>n. isl (gemini_fetch env n (map (take MAX_INPUT) batch))"
    and "\<forall>n. isl (openai_fetch env n (map (take MAX_INPUT) batch))"
  shows "isl (fst (embed_batch env batch w))"
proof -
  obtain x w1 where g: "embedGemini env batch w = (x, w1)" by (cases "embedGemini env batch w")
  with embedGemini_all_fail[OF assms(1), of w] obtain ge where x: "x = Inl ge" by (cases x) auto
  obtain y w2 where o: "embedOpenAI env batch w1 = (y, w2)" by (cases "embedOpenAI env batch w1")
  with embedOpenAI_all_fail[OF assms(2), of w1] obtain oe where y: "y = Inl oe" by (cases y) auto
  from g x o y show ?thesis by (simp add: embed_batch_def)
qed

text \<open>The loop over the batches fails when it has a batch that fails whenever it is sent.\<close>

lemma batch_loop_fails_at:
  assumes "\<And>w. isl (fst (embed_batch env (take BATCH_SIZE (drop (b + k * BATCH_SIZE) U)) w))"
    and "b + k * BATCH_SIZE < length U"
  shows "isl (fst (batch_loop env U I b R C w))"
  using assms
proof (induction k arbitrary: b R C w)
  case 0
  obtain x w1 where e: "embed_batch env (take BATCH_SIZE (drop b U)) w = (x, w1)"
    by (cases "embed_batch env (take BATCH_SIZE (drop b U)) w")
  with 0(1)[of w] obtain err where "x = Inl err" by (cases x) auto
  with e have "batch_loop env U I b R C w = (Inl err, C, w1)" by (simp add: batch_loop_fail)
  then show ?case by simp
next
  case (Suc k)
  obtain x w1 where e: "embed_batch env (take BATCH_SIZE (drop b U)) w = (x, w1)"
    by (cases "embed_batch env (take BATCH_SIZE (drop b U)) w")
  show ?case
  proof (cases x)
    case (Inl err)
    with e have "batch_loop env U I b R C w = (Inl err, C, w1)" by (simp add: batch_loop_fail)
    then show ?thesis by simp
  next
    case (Inr result)
    obtain R1 C1 where st:
      "foldl (store_step (take BATCH_SIZE (drop b U)) (take BATCH_SIZE (drop b I)) result) (R, C)
           [0 ..< length (take BATCH_SIZE (drop b U))] = (R1, C1)"
      by (cases "foldl (store_step (take BATCH_SIZE (drop b U)) (take BATCH_SIZE (drop b I)) result) (R, C)
           [0 ..< length (take BATCH_SIZE (drop b U))]")
    from Suc.prems(2) have more: "b + BATCH_SIZE < length U" by simp
    have eq: "(b + BATCH_SIZE) + k * BATCH_SIZE = b + Suc k * BATCH_SIZE" by simp
    have "isl (fst (batch_loop env U I (b + BATCH_SIZE) R1 C1 w1))"
      by (rule Suc.IH) (use Suc.prems in \<open>simp_all only: eq\<close>)
    with batch_loop_step[OF e[unfolded Inr] st] more show ?thesis by simp
  qed
qed

text \<open>An error of the loop over the batches is the error of one of its batches.\<close>

lemma batch_loop_error_source:
  "batch_loop env U I b R C w = (Inl e, c', w') \<Longrightarrow> b < length U \<Longrightarrow>
     \<exists>k w0. b + k * BATCH_SIZE < length U \<and>
       embed_batch env (take BATCH_SIZE (drop (b + k * BATCH_SIZE) U)) w0 = (Inl e, w')"
proof (induction env U I b R C w rule: batch_loop.induct)
  case (1 env U I b R C w)
  obtain x w1 where eb: "embed_batch env (take BATCH_SIZE (drop b U)) w = (x, w1)"
    by (cases "embed_batch env (take BATCH_SIZE (drop b U)) w")
  show ?case
  proof (cases x)
    case (Inl err)
    with eb have "batch_loop env U I b R C w = (Inl err, C, w1)" by (simp add: batch_loop_fail)
    with "1.prems" have "err = e" "w1 = w'" by simp_all
    with eb Inl "1.prems"(2) have "b + 0 * BATCH_SIZE < length U \<and>
       embed_batch env (take BATCH_SIZE (drop (b + 0 * BATCH_SIZE) U)) w = (Inl e, w')" by simp
    then show ?thesis by blast
  next
    case (Inr result)
    obtain R1 C1 where st:
      "foldl (store_step (take BATCH_SIZE (drop b U)) (take BATCH_SIZE (drop b I)) result) (R, C)
           [0 ..< length (take BATCH_SIZE (drop b U))] = (R1, C1)"
      by (cases "foldl (store_step (take BATCH_SIZE (drop b U)) (take BATCH_SIZE (drop b I)) result) (R, C)
           [0 ..< length (take BATCH_SIZE (drop b U))]")
    note step = batch_loop_step[OF eb[unfolded Inr] st]
    show ?thesis
    proof (cases "b + BATCH_SIZE < length U")
      case False
      with step "1.prems" show ?thesis by simp
    next
      case True
      with step "1.prems" have rec: "batch_loop env U I (b + BATCH_SIZE) R1 C1 w1 = (Inl e, c', w')"
        by simp
      from "1.IH"[OF refl refl eb[unfolded Inr, symmetric] refl st[symmetric] True rec True]
      obtain k w0 where "b + BATCH_SIZE + k * BATCH_SIZE < length U"
        "embed_batch env (take BATCH_SIZE (drop (b + BATCH_SIZE + k * BATCH_SIZE) U)) w0 = (Inl e, w')"
        by blast
      then have "b + Suc k * BATCH_SIZE < length U \<and>
        embed_batch env (take BATCH_SIZE (drop (b + Suc k * BATCH_SIZE) U)) w0 = (Inl e, w')"
        by (simp add: add.assoc)
      then show ?thesis by blast
    qed
  qed
qed

lemma embedTexts_fails_at:
  assumes "k * BATCH_SIZE < length (uncached_of c texts)"
    and "\<forall>n. isl (gemini_fetch env n (map (take MAX_INPUT)
            (take BATCH_SIZE (drop (k * BATCH_SIZE) (uncached_of c texts)))))"
    and "\<forall>n. isl (openai_fetch env n (map (take MAX_INPUT)
            (take BATCH_SIZE (drop (k * BATCH_SIZE) (uncached_of c texts)))))"
  shows "\<exists>ge oe. fst (embedTexts env texts (c, w)) = Inl (Error (combined_message ge oe))"
proof -
  from assms(1) have ne: "uncached_of c texts \<noteq> []" by auto
  then have tne: "texts \<noteq> []" by (auto simp: uncached_of_def)
  from embedTexts_some_uncached[OF ne, of env w] obtain C1 where
    u: "embedTexts env texts (c, w) =
       batch_loop env (uncached_of c texts) (uncached_idx_of c texts) 0 (map (map_of c) texts) C1 w"
    by blast
  have "isl (fst (batch_loop env (uncached_of c texts) (uncached_idx_of c texts) 0
      (map (map_of c) texts) C1 w))"
    by (rule batch_loop_fails_at[where k = k])
       (use assms in \<open>simp_all add: embed_batch_all_fail\<close>)
  then have i: "isl (fst (embedTexts env texts (c, w)))" by (simp only: u)
  obtain x c' w' where r: "embedTexts env texts (c, w) = (x, c', w')"
    by (cases "embedTexts env texts (c, w)")
  with i obtain e where x: "x = Inl e" by (cases x) simp_all
  from embedTexts_shape[OF r] tne x obtain ge oe where "e = Error (combined_message ge oe)"
    by auto
  with r x have "fst (embedTexts env texts (c, w)) = Inl (Error (combined_message ge oe))" by simp
  then show ?thesis by blast
qed

lemma embedTexts_error_source:
  assumes "texts \<noteq> []" "embedTexts env texts (c, w) = (Inl e, c', w')"
  shows "\<exists>k w0. k * BATCH_SIZE < length (uncached_of c texts) \<and>
     embed_batch env (take BATCH_SIZE (drop (k * BATCH_SIZE) (uncached_of c texts))) w0 = (Inl e, w')"
proof (cases "uncached_of c texts = []")
  case True
  from embedTexts_all_cached[OF True assms(1), of env w] assms(2) show ?thesis by auto
next
  case False
  from embedTexts_some_uncached[OF False, of env w] assms(2) obtain C1 where
    "batch_loop env (uncached_of c texts) (uncached_idx_of c texts) 0 (map (map_of c) texts) C1 w =
       (Inl e, c', w')" by auto
  from batch_loop_error_source[OF this] False show ?thesis by simp
qed

section \<open>Properties of the embedding gateway\<close>

text \<open>
  C5 fails on the code. First run: a call is served by the second provider (the first one
  is down) and its vector of length 3 is cached; the next call gets that vector from the
  cache and a fresh vector of length 2 from the first provider, and returns both under
  \<open>dim = 2\<close> and the first provider's name. Second run: in one call of eleven texts and an
  empty cache, the first batch is served by the first provider and the second batch by
  the second one; the result holds ten vectors of length 2 and one of length 3 under
  \<open>dim = 3\<close> and the second provider's name.
\<close>

theorem embedTexts_mixes_providers:
  "(case embedTexts primary_down_then_up [''a''] ([], []) of
      (r, st) \<Rightarrow> fst (embedTexts primary_down_then_up [''a'', ''b''] st)) =
     Inr \<lparr>dim = 2, provider = ''google'', model = ''text-embedding-004'',
          embeddings = [Some [1, 2, 3], Some [1, 2]]\<rparr> \<and>
   fst (embedTexts primary_up_then_down eleven_texts ([], [])) =
     Inr \<lparr>dim = 3, provider = ''openai'', model = ''text-embedding-3-small'',
          embeddings = replicate 10 (Some [1, 2]) @ [Some [1, 2, 3]]\<rparr>"
  by code_simp

text \<open>
  C3. For a batch whose three attempts at the first provider all fail, \<open>embedTexts\<close>
  calls the second provider with the same batch (and, whatever the reason the first
  provider failed for, the second provider is given the same batch: its first request
  carries the same truncated texts). When the second provider fails too, the batch fails
  with the combined error, the loop over the batches stops there with that error, and
  the call returns it. A call returns either an error or one embedding for each text,
  never a part of them. For the whole call: when the texts that are not cached have a
  batch, the first or a later one, on which both providers fail at every attempt, the
  call of \<open>embedTexts\<close> fails with a combined error and returns no embedding; and an
  error of a call on texts is the combined error of one of its batches, with the
  request log as that batch left it.
\<close>

theorem embedTexts_fallback:
  "(GEMINI_API_KEY env \<and>
    gemini_fetch env (length w) (map (take MAX_INPUT) batch) = Inl m1 \<and>
    gemini_fetch env (Suc (length w)) (map (take MAX_INPUT) batch) = Inl m2 \<and>
    gemini_fetch env (Suc (Suc (length w))) (map (take MAX_INPUT) batch) = Inl m3 \<longrightarrow>
      embed_batch env batch w =
        (case embedOpenAI env batch (w @ replicate 3 (''google'', map (take MAX_INPUT) batch)) of
           (Inr result, w2) \<Rightarrow> (Inr result, w2)
         | (Inl openaiErr, w2) \<Rightarrow> (Inl (Error (combined_message (Error m3) openaiErr)), w2))) \<and>
   (embedGemini env batch w = (Inl geminiErr, w1) \<longrightarrow>
      embed_batch env batch w =
        (case embedOpenAI env batch w1 of
           (Inr result, w2) \<Rightarrow> (Inr result, w2)
         | (Inl openaiErr, w2) \<Rightarrow> (Inl (Error (combined_message geminiErr openaiErr)), w2))) \<and>
   (OPENAI_API_KEY env \<and> embedOpenAI env batch w1 = (r2, w2) \<longrightarrow>
      (\<exists>k. w2 = w1 @ (''openai'', map (take MAX_INPUT) batch) #
                    replicate k (''openai'', map (take MAX_INPUT) batch))) \<and>
   (embed_batch env (take BATCH_SIZE (drop b U)) w = (Inl e, w') \<longrightarrow>
      batch_loop env U I b R C w = (Inl e, C, w')) \<and>
   (embedTexts env texts (c, w) = (res, c', w'') \<longrightarrow>
      (case res of
         Inr r \<Rightarrow> length (embeddings r) = length texts
       | Inl e \<Rightarrow> texts = [] \<or> (\<exists>ge oe. e = Error (combined_message ge oe)))) \<and>
   (k * BATCH_SIZE < length (uncached_of c texts) \<and>
    (\<forall>n. isl (gemini_fetch env n (map (take MAX_INPUT)
            (take BATCH_SIZE (drop (k * BATCH_SIZE) (uncached_of c texts)))))) \<and>
    (\<forall>n. isl (openai_fetch env n (map (take MAX_INPUT)
            (take BATCH_SIZE (drop (k * BATCH_SIZE) (uncached_of c texts)))))) \<longrightarrow>
      (\<exists>ge oe. fst (embedTexts env texts (c, w)) = Inl (Error (combined_message ge oe)))) \<and>
   (texts \<noteq> [] \<and> embedTexts env texts (c, w) = (Inl e, c', w'') \<longrightarrow>
      (\<exists>j w0. j * BATCH_SIZE < length (uncached_of c texts) \<and>
         embed_batch env (take BATCH_SIZE (drop (j * BATCH_SIZE) (uncached_of c texts))) w0 =
           (Inl e, w'')))"
proof (intro conjI impI)
  assume "GEMINI_API_KEY env \<and>
    gemini_fetch env (length w) (map (take MAX_INPUT) batch) = Inl m1 \<and>
    gemini_fetch env (Suc (length w)) (map (take MAX_INPUT) batch) = Inl m2 \<and>
    gemini_fetch env (Suc (Suc (length w))) (map (take MAX_INPUT) batch) = Inl m3"
  then have "embedGemini env batch w =
      (Inl (Error m3), w @ replicate 3 (''google'', map (take MAX_INPUT) batch))"
    by (intro embedGemini_three_failures) simp_all
  then show "embed_batch env batch w =
        (case embedOpenAI env batch (w @ replicate 3 (''google'', map (take MAX_INPUT) batch)) of
           (Inr result, w2) \<Rightarrow> (Inr result, w2)
         | (Inl openaiErr, w2) \<Rightarrow> (Inl (Error (combined_message (Error m3) openaiErr)), w2))"
    by (simp add: embed_batch_def split: prod.splits sum.splits)
next
  assume "embedGemini env batch w = (Inl geminiErr, w1)"
  then show "embed_batch env batch w =
        (case embedOpenAI env batch w1 of
           (Inr result, w2) \<Rightarrow> (Inr result, w2)
         | (Inl openaiErr, w2) \<Rightarrow> (Inl (Error (combined_message geminiErr openaiErr)), w2))"
    by (simp add: embed_batch_def split: prod.splits sum.splits)
next
  assume "OPENAI_API_KEY env \<and> embedOpenAI env batch w1 = (r2, w2)"
  then show "\<exists>k. w2 = w1 @ (''openai'', map (take MAX_INPUT) batch) #
                    replicate k (''openai'', map (take MAX_INPUT) batch)"
    using embedOpenAI_first_request by blast
next
  assume "embed_batch env (take BATCH_SIZE (drop b U)) w = (Inl e, w')"
  then show "batch_loop env U I b R C w = (Inl e, C, w')"
    by (rule batch_loop_fail)
next
  assume "embedTexts env texts (c, w) = (res, c', w'')"
  then show "case res of
         Inr r \<Rightarrow> length (embeddings r) = length texts
       | Inl e \<Rightarrow> texts = [] \<or> (\<exists>ge oe. e = Error (combined_message ge oe))"
    by (rule embedTexts_shape)
next
  assume "k * BATCH_SIZE < length (uncached_of c texts) \<and>
    (\<forall>n. isl (gemini_fetch env n (map (take MAX_INPUT)
            (take BATCH_SIZE (drop (k * BATCH_SIZE) (uncached_of c texts)))))) \<and>
    (\<forall>n. isl (openai_fetch env n (map (take MAX_INPUT)
            (take BATCH_SIZE (drop (k * BATCH_SIZE) (uncached_of c texts))))))"
  then show "\<exists>ge oe. fst (embedTexts env texts (c, w)) = Inl (Error (combined_message ge oe))"
    using embedTexts_fails_at by blast
next
  assume "texts \<noteq> [] \<and> embedTexts env texts (c, w) = (Inl e, c', w'')"
  then show "\<exists>j w0. j * BATCH_SIZE < length (uncached_of c texts) \<and>
         embed_batch env (take BATCH_SIZE (drop (j * BATCH_SIZE) (uncached_of c texts))) w0 =
           (Inl e, w'')"
    using embedTexts_error_source by blast
qed

theorem embedTexts_fallback_witness:
  "embed_batch all_down [''a''] [] =
     (Inl (Error (combined_message (Error ''Gemini API 503: '') (Error ''OpenAI API 500: ''))),
      replicate 3 (''google'', [''a'']) @ replicate 3 (''openai'', [''a''])) \<and>
   embedTexts all_down [''a''] ([], []) =
     (Inl (Error (combined_message (Error ''Gemini API 503: '') (Error ''OpenAI API 500: ''))),
      [], replicate 3 (''google'', [''a'']) @ replicate 3 (''openai'', [''a''])) \<and>
   take BATCH_SIZE (drop (1 * BATCH_SIZE) (uncached_of [] eleven_texts)) = [''txxxxxxxxxx''] \<and>
   (\<exists>ge oe. fst (embedTexts second_batch_down eleven_texts ([], [])) =
      Inl (Error (combined_message ge oe))) \<and>
   embedTexts second_batch_down eleven_texts ([], []) =
     (Inl (Error (combined_message (Error ''Gemini API 503: '') (Error ''OpenAI API 500: ''))),
      map (\<lambda>t. (t, \<lparr>dim = 2, provider = ''google'', model = ''text-embedding-004'',
                      embedding = Some [1, 2]\<rparr>)) (take 10 eleven_texts),
      (''google'', take 10 eleven_texts) # replicate 3 (''google'', [''txxxxxxxxxx'']) @
        replicate 3 (''openai'', [''txxxxxxxxxx'']))"
proof -
  have req: "map (take MAX_INPUT) [''a''] = [''a'']" by (simp add: MAX_INPUT_def)
  have hyp: "GEMINI_API_KEY all_down \<and>
    gemini_fetch all_down (length ([] :: net_log)) (map (take MAX_INPUT) [''a'']) = Inl ''Gemini API 503: '' \<and>
    gemini_fetch all_down (Suc (length ([] :: net_log))) (map (take MAX_INPUT) [''a'']) = Inl ''Gemini API 503: '' \<and>
    gemini_fetch all_down (Suc (Suc (length ([] :: net_log)))) (map (take MAX_INPUT) [''a'']) = Inl ''Gemini API 503: ''"
    by (simp add: all_down_def)
  have second: "embedOpenAI all_down [''a''] (replicate 3 (''google'', [''a''])) =
      (Inl (Error ''OpenAI API 500: ''),
       replicate 3 (''google'', [''a'']) @ replicate 3 (''openai'', [''a'']))"
    by code_simp
  have "embed_batch all_down [''a''] [] =
      (case embedOpenAI all_down [''a''] ([] @ replicate 3 (''google'', map (take MAX_INPUT) [''a''])) of
         (Inr result, w2) \<Rightarrow> (Inr result, w2)
       | (Inl openaiErr, w2) \<Rightarrow>
           (Inl (Error (combined_message (Error ''Gemini API 503: '') openaiErr)), w2))"
    using embedTexts_fallback [where env = all_down and w = "[]" and batch = "[''a'']",
        THEN conjunct1, THEN mp, OF hyp] .
  then have batch: "embed_batch all_down [''a''] [] =
     (Inl (Error (combined_message (Error ''Gemini API 503: '') (Error ''OpenAI API 500: ''))),
      replicate 3 (''google'', [''a'']) @ replicate 3 (''openai'', [''a'']))"
    by (simp only: req append_Nil second prod.case sum.case)
  have tk: "take BATCH_SIZE (drop 0 [''a'']) = [''a'']" by (simp add: BATCH_SIZE_def)
  have "batch_loop all_down [''a''] [0] 0 [None] [] [] =
     (Inl (Error (combined_message (Error ''Gemini API 503: '') (Error ''OpenAI API 500: ''))),
      [], replicate 3 (''google'', [''a'']) @ replicate 3 (''openai'', [''a'']))"
    using batch
    by (intro embedTexts_fallback [where env = all_down and w = "[]" and b = 0 and U = "[''a'']",
        THEN conjunct2, THEN conjunct2, THEN conjunct2, THEN conjunct1, THEN mp]) (simp only: tk)
  moreover have "embedTexts all_down [''a''] ([], []) = batch_loop all_down [''a''] [0] 0 [None] [] []"
    by (simp add: embedTexts_def scan_step_def cache_get_def)
  ultimately have one: "embedTexts all_down [''a''] ([], []) =
     (Inl (Error (combined_message (Error ''Gemini API 503: '') (Error ''OpenAI API 500: ''))),
      [], replicate 3 (''google'', [''a'']) @ replicate 3 (''openai'', [''a'']))"
    by simp
  have b2: "take BATCH_SIZE (drop (1 * BATCH_SIZE) (uncached_of [] eleven_texts)) = [''txxxxxxxxxx'']"
    by code_simp
  have len: "1 * BATCH_SIZE < length (uncached_of [] eleven_texts)"
    by code_simp
  have down: "1 * BATCH_SIZE < length (uncached_of [] eleven_texts) \<and>
    (\<forall>n. isl (gemini_fetch second_batch_down n (map (take MAX_INPUT)
            (take BATCH_SIZE (drop (1 * BATCH_SIZE) (uncached_of [] eleven_texts)))))) \<and>
    (\<forall>n. isl (openai_fetch second_batch_down n (map (take MAX_INPUT)
            (take BATCH_SIZE (drop (1 * BATCH_SIZE) (uncached_of [] eleven_texts))))))"
    unfolding b2 using len by (simp add: second_batch_down_def)
  have whole: "\<exists>ge oe. fst (embedTexts second_batch_down eleven_texts ([], [])) =
      Inl (Error (combined_message ge oe))"
    using embedTexts_fallback [where env = second_batch_down and texts = eleven_texts
        and c = "[]" and w = "[]" and k = 1,
        THEN conjunct2, THEN conjunct2, THEN conjunct2, THEN conjunct2, THEN conjunct2,
        THEN conjunct1, THEN mp, OF down] .
  have scan: "foldl (scan_step eleven_texts) (replicate (length eleven_texts) None, [], [], [])
      [0 ..< length eleven_texts] = (replicate 11 None, eleven_texts, [0 ..< 11], [])"
    by code_simp
  have ne: "length eleven_texts \<noteq> 0" by code_simp
  have loop: "batch_loop second_batch_down eleven_texts [0 ..< 11] 0 (replicate 11 None) [] [] =
     (Inl (Error (combined_message (Error ''Gemini API 503: '') (Error ''OpenAI API 500: ''))),
      map (\<lambda>t. (t, \<lparr>dim = 2, provider = ''google'', model = ''text-embedding-004'',
                      embedding = Some [1, 2]\<rparr>)) (take 10 eleven_texts),
      (''google'', take 10 eleven_texts) # replicate 3 (''google'', [''txxxxxxxxxx'']) @
        replicate 3 (''openai'', [''txxxxxxxxxx'']))"
    by code_simp
  have run: "embedTexts second_batch_down eleven_texts ([], []) =
     (Inl (Error (combined_message (Error ''Gemini API 503: '') (Error ''OpenAI API 500: ''))),
      map (\<lambda>t. (t, \<lparr>dim = 2, provider = ''google'', model = ''text-embedding-004'',
                      embedding = Some [1, 2]\<rparr>)) (take 10 eleven_texts),
      (''google'', take 10 eleven_texts) # replicate 3 (''google'', [''txxxxxxxxxx'']) @
        replicate 3 (''openai'', [''txxxxxxxxxx'']))"
    unfolding embedTexts_def by (simp only: prod.case scan ne if_False loop)
  from batch one b2 whole run show ?thesis by (intro conjI)
qed

text \<open>
  C4. In a call of \<open>embedTexts\<close>, every request sent to a provider carries a batch of the
  texts the cache did not hold when the call started (truncated to \<open>MAX_INPUT\<close>), and no
  request is sent when the cache held them all. A successful call returns one embedding
  for each text, in the order of the texts: for a text the cache held, the cached vector;
  for another text, when the providers answer in line with an embedding function \<open>E\<close>,
  the vector \<open>E\<close> gives for the truncated text. And a text that a call has embedded alone
  is answered by the next call from the cache, with the same result and no request.
\<close>

theorem embedTexts_cache_order:
  "(embedTexts env texts (c, w) = (res, c', w') \<longrightarrow>
      (\<exists>ext. w' = w @ ext \<and>
         (\<forall>q\<in>set ext. \<exists>b<length (uncached_of c texts).
            snd q = map (take MAX_INPUT) (take BATCH_SIZE (drop b (uncached_of c texts))))) \<and>
      (uncached_of c texts = [] \<longrightarrow> w' = w) \<and>
      (\<forall>r. res = Inr r \<longrightarrow>
         length (embeddings r) = length texts \<and>
         (\<forall>i<length texts. \<forall>e. map_of c (texts ! i) = Some e \<longrightarrow> embeddings r ! i = embedding e) \<and>
         (aligned env E \<longrightarrow>
            (\<forall>i<length texts. map_of c (texts ! i) = None \<longrightarrow>
               embeddings r ! i = Some (E (take MAX_INPUT (texts ! i))))))) \<and>
   (embedTexts env [t] (c, w) = (Inr r1, c1, w1) \<longrightarrow>
      (\<exists>c2. embedTexts env [t] (c1, w1) = (Inr r1, c2, w1)))"
proof -
  have first: "(\<exists>ext. w' = w @ ext \<and>
         (\<forall>q\<in>set ext. \<exists>b<length (uncached_of c texts).
            snd q = map (take MAX_INPUT) (take BATCH_SIZE (drop b (uncached_of c texts))))) \<and>
      (uncached_of c texts = [] \<longrightarrow> w' = w) \<and>
      (\<forall>r. res = Inr r \<longrightarrow>
         length (embeddings r) = length texts \<and>
         (\<forall>i<length texts. \<forall>e. map_of c (texts ! i) = Some e \<longrightarrow> embeddings r ! i = embedding e) \<and>
         (aligned env E \<longrightarrow>
            (\<forall>i<length texts. map_of c (texts ! i) = None \<longrightarrow>
               embeddings r ! i = Some (E (take MAX_INPUT (texts ! i))))))"
    if run: "embedTexts env texts (c, w) = (res, c', w')"
  proof (intro conjI)
    from embedTexts_requests(1)[OF run]
    show "\<exists>ext. w' = w @ ext \<and>
         (\<forall>q\<in>set ext. \<exists>b<length (uncached_of c texts).
            snd q = map (take MAX_INPUT) (take BATCH_SIZE (drop b (uncached_of c texts))))" .
    show "uncached_of c texts = [] \<longrightarrow> w' = w"
      using embedTexts_requests(2)[OF run] by blast
    show "\<forall>r. res = Inr r \<longrightarrow>
         length (embeddings r) = length texts \<and>
         (\<forall>i<length texts. \<forall>e. map_of c (texts ! i) = Some e \<longrightarrow> embeddings r ! i = embedding e) \<and>
         (aligned env E \<longrightarrow>
            (\<forall>i<length texts. map_of c (texts ! i) = None \<longrightarrow>
               embeddings r ! i = Some (E (take MAX_INPUT (texts ! i)))))"
    proof (intro allI impI)
      fix r assume "res = Inr r"
      with run have r: "embedTexts env texts (c, w) = (Inr r, c', w')" by simp
      from embedTexts_positions(1)[OF r] embedTexts_positions(2)[OF r]
        embedTexts_positions(3)[OF r, of E]
      show "length (embeddings r) = length texts \<and>
         (\<forall>i<length texts. \<forall>e. map_of c (texts ! i) = Some e \<longrightarrow> embeddings r ! i = embedding e) \<and>
         (aligned env E \<longrightarrow>
            (\<forall>i<length texts. map_of c (texts ! i) = None \<longrightarrow>
               embeddings r ! i = Some (E (take MAX_INPUT (texts ! i)))))"
        by blast
    qed
  qed
  have second: "\<exists>c2. embedTexts env [t] (c1, w1) = (Inr r1, c2, w1)"
    if "embedTexts env [t] (c, w) = (Inr r1, c1, w1)"
    using that by (rule embedTexts_twice)
  from first second show ?thesis by blast
qed

theorem embedTexts_cache_order_witness:
  "aligned cache_demo_net text_length_vec \<and>
   uncached_of cache_demo [''a'', ''b'', ''cc''] = [''a'', ''cc''] \<and>
   (case embedTexts cache_demo_net [''a'', ''b'', ''cc''] (cache_demo, []) of
      (res, c', w') \<Rightarrow>
        w' = [(''google'', [''a'', ''cc'']), (''google'', [''a'', ''cc''])] \<and>
        (case res of Inl e \<Rightarrow> False
         | Inr r \<Rightarrow> embeddings r = [Some [1], Some [7], Some [2]])) \<and>
   (case embedTexts cache_demo_net [''a''] ([], []) of
      (res1, st1) \<Rightarrow> (case embedTexts cache_demo_net [''a''] st1 of
         (res2, st2) \<Rightarrow> res2 = res1 \<and> snd st2 = snd st1 \<and>
           res1 = Inr \<lparr>dim = 1, provider = ''google'', model = ''text-embedding-004'',
                       embeddings = [Some [1]]\<rparr>))"
proof -
  let ?r = "\<lparr>dim = 1, provider = ''google'', model = ''text-embedding-004'',
             embeddings = [Some [1], Some [7], Some [2]]\<rparr>"
  let ?w = "[(''google'', [''a'', ''cc'']), (''google'', [''a'', ''cc''])]"
  have "fst (embedTexts cache_demo_net [''a'', ''b'', ''cc''] (cache_demo, [])) = Inr ?r"
    "snd (snd (embedTexts cache_demo_net [''a'', ''b'', ''cc''] (cache_demo, []))) = ?w"
    by code_simp+
  then obtain c' where run: "embedTexts cache_demo_net [''a'', ''b'', ''cc''] (cache_demo, []) = (Inr ?r, c', ?w)"
    by (metis prod.collapse)
  have U: "uncached_of cache_demo [''a'', ''b'', ''cc''] = [''a'', ''cc'']" by code_simp
  note al = aligned_cache_demo_net
  note t = embedTexts_cache_order [where env = cache_demo_net and texts = "[''a'', ''b'', ''cc'']"
      and c = cache_demo and w = "[]" and res = "Inr ?r" and c' = c' and w' = ?w
      and E = text_length_vec, THEN conjunct1, THEN mp, OF run]
  from t have "length (embeddings ?r) = length [''a'', ''b'', ''cc'']" by blast
  define r1 where "r1 = \<lparr>dim = 1, provider = ''google'', model = ''text-embedding-004'', embeddings = [Some [1]]\<rparr>"
  have "fst (embedTexts cache_demo_net [''a''] ([], [])) =
      Inr \<lparr>dim = 1, provider = ''google'', model = ''text-embedding-004'', embeddings = [Some [1]]\<rparr>"
    by code_simp
  then obtain c1 w1 where one: "embedTexts cache_demo_net [''a''] ([], []) = (Inr r1, c1, w1)"
    unfolding r1_def by (metis prod.collapse)
  from embedTexts_cache_order [where env = cache_demo_net and t = "''a''" and c = "[]" and w = "[]"
      and ?r1.0 = r1 and ?c1.0 = c1 and ?w1.0 = w1, THEN conjunct2, THEN mp, OF one]
  obtain c2 where two: "embedTexts cache_demo_net [''a''] (c1, w1) = (Inr r1, c2, w1)" by blast
  from al U run one two r1_def show ?thesis by simp
qed

section \<open>Facts about the normalizer\<close>

lemma lit_i_self: "r \<in> set (lit_i p (p @ r))"
  unfolding in_lit_i by (rule exI[of _ p]) (simp add: ci_equal_def)

lemma HTTP_RE_protocol:
  assumes "p = ''http:'' \<or> p = ''https:''"
  shows "HTTP_RE (p @ ''//'' @ rest)"
proof -
  have "rest \<in> set (seqs [lit_i ''http'', opt (lit_i ''s''), lit_i ''://''] (p @ ''//'' @ rest))"
    using assms
  proof
    assume p: "p = ''http:''"
    have 1: "''://'' @ rest \<in> set (lit_i ''http'' (''http'' @ (''://'' @ rest)))"
      by (rule lit_i_self)
    have 2: "''://'' @ rest \<in> set (opt (lit_i ''s'') (''://'' @ rest))"
      by (simp add: set_opt)
    have 3: "rest \<in> set (lit_i ''://'' (''://'' @ rest))" by (rule lit_i_self)
    from 1 2 3 show ?thesis
      unfolding seqs_Cons seqs_Nil set_seq p by auto
  next
    assume p: "p = ''https:''"
    have 1: "''s'' @ ''://'' @ rest \<in> set (lit_i ''http'' (''http'' @ (''s'' @ ''://'' @ rest)))"
      by (rule lit_i_self)
    have "''://'' @ rest \<in> set (lit_i ''s'' (''s'' @ (''://'' @ rest)))"
      by (rule lit_i_self)
    then have 2: "''://'' @ rest \<in> set (opt (lit_i ''s'') (''s'' @ ''://'' @ rest))"
      by (simp add: set_opt)
    have 3: "rest \<in> set (lit_i ''://'' (''://'' @ rest))" by (rule lit_i_self)
    from 1 2 3 show ?thesis
      unfolding seqs_Cons seqs_Nil set_seq p by auto
  qed
  then show ?thesis
    unfolding HTTP_RE_def test_anchored_def by auto
qed

lemma hostname_normalized: "hostname (normalized u) \<noteq> ''twitter.com''"
  by (simp add: normalized_def Let_def set_hostname_def)

lemma normalized_fixed:
  assumes "\<not> prefix ''www.'' (hostname v)" "hostname v \<noteq> ''twitter.com''"
    and "searchParams v = sort_key fst (filter (\<lambda>kv. fst kv \<notin> TRACKING_PARAMS) ps)"
  shows "normalized v = v"
proof -
  have 1: "set_hostname (strip_www (hostname v)) v = v"
    using assms(1) by (simp add: strip_www_def set_hostname_def)
  have 2: "filter (\<lambda>kv. fst kv \<notin> TRACKING_PARAMS) (searchParams v) = searchParams v"
    unfolding assms(3) by (simp add: filter_sort[symmetric])
  have 3: "sort_key fst (searchParams v) = searchParams v"
    unfolding assms(3) by (rule sort_key_id_if_sorted) simp
  show ?thesis
    unfolding normalized_def by (simp add: 1 assms(2) 2 3 Let_def)
qed

section \<open>Properties of the normalizer\<close>

text \<open>
  C7 (as amended). \<open>normalizeUrl\<close> returns unchanged, and so is idempotent on, the empty
  string, every string that is no HTTP(S) URL and every string the URL parser rejects.
  On an HTTP(S) URL it parses, a second pass changes nothing whenever the first pass's
  output parses again to the host and the parameters it was written from and serializes
  back to itself, that host does not begin with \<open>www.\<close>, and the output does not end in
  a slash after a path other than the root.
\<close>

theorem normalizeUrl_idempotent_when:
  "(raw = [] \<or> \<not> HTTP_RE raw \<or> URL_new raw = None \<longrightarrow>
      normalizeUrl URL_new raw = raw \<and>
      normalizeUrl URL_new (normalizeUrl URL_new raw) = normalizeUrl URL_new raw) \<and>
   (HTTP_RE raw \<and> URL_new raw = Some u \<and> (protocol u = ''http:'' \<or> protocol u = ''https:'') \<and>
    URL_new (normalizeUrl URL_new raw) = Some v \<and>
    href v = normalizeUrl URL_new raw \<and> protocol v = protocol u \<and>
    hostname v = hostname (normalized u) \<and> searchParams v = searchParams (normalized u) \<and>
    \<not> prefix ''www.'' (hostname v) \<and>
    \<not> (suffix ''/'' (normalizeUrl URL_new raw) \<and> pathname v \<noteq> ''/'') \<longrightarrow>
      normalizeUrl URL_new (normalizeUrl URL_new raw) = normalizeUrl URL_new raw)"
proof (rule conjI; rule impI)
  assume "raw = [] \<or> \<not> HTTP_RE raw \<or> URL_new raw = None"
  then have "normalizeUrl URL_new raw = raw"
    by (auto simp: normalizeUrl_def)
  then show "normalizeUrl URL_new raw = raw \<and>
      normalizeUrl URL_new (normalizeUrl URL_new raw) = normalizeUrl URL_new raw"
    by simp
next
  let ?out = "normalizeUrl URL_new raw"
  assume a: "HTTP_RE raw \<and> URL_new raw = Some u \<and> (protocol u = ''http:'' \<or> protocol u = ''https:'') \<and>
    URL_new ?out = Some v \<and>
    href v = ?out \<and> protocol v = protocol u \<and>
    hostname v = hostname (normalized u) \<and> searchParams v = searchParams (normalized u) \<and>
    \<not> prefix ''www.'' (hostname v) \<and>
    \<not> (suffix ''/'' ?out \<and> pathname v \<noteq> ''/'')"
  then have "protocol v = ''http:'' \<or> protocol v = ''https:''" by simp
  from HTTP_RE_protocol[OF this] have "HTTP_RE (href v)"
    by (simp add: href_def)
  with a have http: "HTTP_RE ?out" and ne: "?out \<noteq> []"
    by (auto simp: href_def)
  obtain ps where ps: "searchParams (normalized u) =
      sort_key fst (filter (\<lambda>kv. fst kv \<notin> TRACKING_PARAMS) ps)"
    by (simp add: normalized_def Let_def)
  have fixed: "normalized v = v"
  proof (rule normalized_fixed)
    show "\<not> prefix ''www.'' (hostname v)" using a by blast
    from a have "hostname v = hostname (normalized u)" by blast
    then show "hostname v \<noteq> ''twitter.com''" using hostname_normalized[of u] by simp
    from a have "searchParams v = searchParams (normalized u)" by blast
    then show "searchParams v = sort_key fst (filter (\<lambda>kv. fst kv \<notin> TRACKING_PARAMS) ps)"
      using ps by simp
  qed
  have "normalizeUrl URL_new ?out =
      (if suffix ''/'' (href v) \<and> pathname v \<noteq> ''/'' then butlast (href v) else href v)"
    using http ne a by (subst normalizeUrl_def) (simp add: fixed Let_def)
  with a show "normalizeUrl URL_new ?out = ?out" by auto
qed

theorem normalizeUrl_idempotent_when_witness:
  "normalizeUrl URL_plain ''ftp://example.com'' = ''ftp://example.com'' \<and>
   normalizeUrl URL_plain ''https://'' = ''https://'' \<and>
   normalizeUrl URL_plain ''https://www.twitter.com/a/status/1?utm_source=x#y'' =
     ''https://x.com/a/status/1'' \<and>
   normalizeUrl URL_plain (normalizeUrl URL_plain ''https://www.twitter.com/a/status/1?utm_source=x#y'') =
     normalizeUrl URL_plain ''https://www.twitter.com/a/status/1?utm_source=x#y''"
proof -
  note t = normalizeUrl_idempotent_when [where URL_new = URL_plain]
  have "\<not> HTTP_RE ''ftp://example.com''" by code_simp
  with t [where raw = "''ftp://example.com''", THEN conjunct1]
  have 1: "normalizeUrl URL_plain ''ftp://example.com'' = ''ftp://example.com''" by blast
  have "URL_plain ''https://'' = None" by code_simp
  with t [where raw = "''https://''", THEN conjunct1]
  have 2: "normalizeUrl URL_plain ''https://'' = ''https://''" by blast
  let ?raw = "''https://www.twitter.com/a/status/1?utm_source=x#y''"
  let ?u = "\<lparr>protocol = ''https:'', username = [], password = [], hostname = ''www.twitter.com'',
             port = [], pathname = ''/a/status/1'', searchParams = [(''utm_source'', ''x'')]\<rparr>"
  let ?v = "\<lparr>protocol = ''https:'', username = [], password = [], hostname = ''x.com'',
             port = [], pathname = ''/a/status/1'', searchParams = []\<rparr>"
  have out: "normalizeUrl URL_plain ?raw = ''https://x.com/a/status/1''" by code_simp
  have h: "HTTP_RE ?raw \<and> URL_plain ?raw = Some ?u \<and>
      (protocol ?u = ''http:'' \<or> protocol ?u = ''https:'') \<and>
      URL_plain (normalizeUrl URL_plain ?raw) = Some ?v \<and>
      href ?v = normalizeUrl URL_plain ?raw \<and> protocol ?v = protocol ?u \<and>
      hostname ?v = hostname (normalized ?u) \<and> searchParams ?v = searchParams (normalized ?u) \<and>
      \<not> prefix ''www.'' (hostname ?v) \<and>
      \<not> (suffix ''/'' (normalizeUrl URL_plain ?raw) \<and> pathname ?v \<noteq> ''/'')"
    unfolding out by code_simp
  from t [where raw = ?raw and u = ?u and v = ?v, THEN conjunct2, THEN mp, OF h]
  have 3: "normalizeUrl URL_plain (normalizeUrl URL_plain ?raw) = normalizeUrl URL_plain ?raw" .
  from 1 2 3 out show ?thesis by simp
qed

text \<open>
  C7 as stated fails: one pass removes one leading \<open>www.\<close> and one trailing slash, so a
  second pass still changes a host that starts with \<open>www.www.\<close> and a path that ends in
  two slashes.
\<close>

theorem normalizeUrl_idempotent_counterexample:
  "normalizeUrl URL_plain ''https://www.www.example.com/'' = ''https://www.example.com/'' \<and>
   normalizeUrl URL_plain (normalizeUrl URL_plain ''https://www.www.example.com/'') =
     ''https://example.com/'' \<and>
   normalizeUrl URL_plain ''https://example.com/a//'' = ''https://example.com/a/'' \<and>
   normalizeUrl URL_plain (normalizeUrl URL_plain ''https://example.com/a//'') =
     ''https://example.com/a''"
  by code_simp

section \<open>Facts about ingestion\<close>

lemma chunkText_nonempty:
  assumes "text \<noteq> []"
  shows "chunkText text \<noteq> []"
proof (cases "length text < MIN_CHUNK \<or> sentences text = []")
  case True
  with assms show ?thesis by (auto simp: chunkText_def)
next
  case False
  then obtain s where s: "s \<in> set (sentences text)" by (cases "sentences text") auto
  then have good: "trim s \<noteq> []" by (simp add: sentences_def)
  from False assms have "chunkText text = chunk_finish (foldl chunk_step ([], []) (sentences text))"
    by (auto simp: chunkText_def)
  moreover from chunk_finish_keeps[OF foldl_chunk_step_adds[OF s good, of "([], [])"] good]
  have "chunk_finish (foldl chunk_step ([], []) (sentences text)) \<noteq> []" by auto
  ultimately show ?thesis by simp
qed

lemma embed_chunks_nonempty:
  "chunks \<noteq> [] \<Longrightarrow>
     embed_chunks env chunks st =
       (case embedTexts env chunks st of
          (Inl e, st') \<Rightarrow> (Inl e, st')
        | (Inr result, st') \<Rightarrow>
            (Inr (embeddings result, dim result, Some (provider result), Some (model result)), st'))"
  by (simp add: embed_chunks_def)

lemma commit_store:
  assumes "commit env url ty ex content h chunks emb s = (Inl e, s')"
  shows "store s' = store s"
  using assms
  by (cases emb) (auto simp: commit_def Let_def transaction_def split: prod.splits sum.splits)

lemma ingest_content_store:
  assumes "ingest_content env url ty ex s = (Inl e, s')"
  shows "store s' = store s"
proof -
  have "store s' = store s"
    if "commit env url ty ex content h chunks emb (s\<lparr>cache_of := c', requests := w'\<rparr>) = (Inl e, s')"
    for content h chunks emb c' w'
    using commit_store[OF that] by simp
  with assms show ?thesis
    by (auto simp: ingest_content_def Let_def split: if_splits option.splits prod.splits sum.splits)
qed

lemma ingest_body_store:
  assumes "ingest_body env rawUrl s = (Inl e, s')"
  shows "store s' = store s"
  using assms ingest_content_store
  by (auto simp: ingest_body_def Let_def split: option.splits sum.splits)

lemma ingest_store:
  assumes "ingest lenv env rawUrl (fs, s) = (Inl e, fs', s')"
  shows "store s' = store s"
  using assms ingest_body_store
  by (auto simp: ingest_def split: prod.splits sum.splits)

lemma ingest_body_embed_failure:
  assumes "url = normalizeUrl (new_URL env) rawUrl" "ty = detectSourceType (Some url)"
    and "find (\<lambda>r. s_url r = url) (source_rows (store s)) = None"
    and "extractContent env url ty = Inr ex"
    and "content = truncateContent (e_content ex)" "content \<noteq> []"
    and "validateContent env content ty (e_metadata ex) = None"
    and "find (\<lambda>r. s_content_hash r = Some (sha256_hex env content)) (source_rows (store s)) = None"
    and "embedTexts (net env) (chunkText content) (cache_of s, requests s) = (Inl e, c', w')"
  shows "ingest_body env rawUrl s = (Inl e, s\<lparr>cache_of := c', requests := w'\<rparr>)"
proof -
  have "embed_chunks (net env) (chunkText content) (cache_of s, requests s) = (Inl e, c', w')"
    using chunkText_nonempty[OF assms(6)] assms(9) by (simp add: embed_chunks_nonempty)
  then have "ingest_content env url ty ex s = (Inl e, s\<lparr>cache_of := c', requests := w'\<rparr>)"
    using assms(5-8) by (simp add: ingest_content_def Let_def)
  then show ?thesis
    using assms(1-4) by (simp add: ingest_body_def Let_def)
qed

section \<open>Properties of ingestion\<close>

text \<open>
  C1. When a run of \<open>_ingest\<close> reaches the embedding step (the URL is new, extraction
  gives content that is not empty, valid and new) and \<open>embedTexts\<close> throws, \<open>_ingest\<close>
  throws that error and the store is what it was: no source row and no chunk row is
  written, only the cache and the request log have moved. More generally, whenever
  \<open>_ingest\<close> or \<open>ingest\<close> throws, the store is unchanged: the rows are written in one
  transaction, after the embedding, and a failed transaction is rolled back.
\<close>

theorem ingest_embed_failure_keeps_store:
  "(url = normalizeUrl (new_URL env) rawUrl \<and> ty = detectSourceType (Some url) \<and>
    find (\<lambda>r. s_url r = url) (source_rows (store s)) = None \<and>
    extractContent env url ty = Inr ex \<and>
    content = truncateContent (e_content ex) \<and> content \<noteq> [] \<and>
    validateContent env content ty (e_metadata ex) = None \<and>
    find (\<lambda>r. s_content_hash r = Some (sha256_hex env content)) (source_rows (store s)) = None \<and>
    embedTexts (net env) (chunkText content) (cache_of s, requests s) = (Inl e, c', w') \<longrightarrow>
      ingest_body env rawUrl s = (Inl e, s\<lparr>cache_of := c', requests := w'\<rparr>) \<and>
      store (snd (ingest_body env rawUrl s)) = store s) \<and>
   (ingest_body env rawUrl s = (Inl e2, s2) \<longrightarrow> store s2 = store s) \<and>
   (ingest lenv env rawUrl (fs, s) = (Inl e3, fs3, s3) \<longrightarrow> store s3 = store s)"
proof -
  have 1: "ingest_body env rawUrl s = (Inl e, s\<lparr>cache_of := c', requests := w'\<rparr>) \<and>
      store (snd (ingest_body env rawUrl s)) = store s"
    if h: "url = normalizeUrl (new_URL env) rawUrl \<and> ty = detectSourceType (Some url) \<and>
    find (\<lambda>r. s_url r = url) (source_rows (store s)) = None \<and>
    extractContent env url ty = Inr ex \<and>
    content = truncateContent (e_content ex) \<and> content \<noteq> [] \<and>
    validateContent env content ty (e_metadata ex) = None \<and>
    find (\<lambda>r. s_content_hash r = Some (sha256_hex env content)) (source_rows (store s)) = None \<and>
    embedTexts (net env) (chunkText content) (cache_of s, requests s) = (Inl e, c', w')"
  proof -
    have "ingest_body env rawUrl s = (Inl e, s\<lparr>cache_of := c', requests := w'\<rparr>)"
      by (rule ingest_body_embed_failure[of url env rawUrl ty s ex content e c' w']) (use h in blast)+
    then show ?thesis by simp
  qed
  have 2: "store s2 = store s" if "ingest_body env rawUrl s = (Inl e2, s2)"
    using that by (rule ingest_body_store)
  have 3: "store s3 = store s" if "ingest lenv env rawUrl (fs, s) = (Inl e3, fs3, s3)"
    using that by (rule ingest_store)
  from 1 2 3 show ?thesis by blast
qed

theorem ingest_embed_failure_keeps_store_witness:
  "ingest_body (demo_env\<lparr>net := all_down\<rparr>) ''https://www.example.com/a/'' empty_sys =
     (Inl (Error (combined_message (Error ''Gemini API 503: '') (Error ''OpenAI API 500: ''))),
      empty_sys\<lparr>cache_of := [],
                requests := replicate 3 (''google'', [''Hello world. This is a test.'']) @
                            replicate 3 (''openai'', [''Hello world. This is a test.''])\<rparr>) \<and>
   store (snd (ingest_body (demo_env\<lparr>net := all_down\<rparr>) ''https://www.example.com/a/'' empty_sys)) =
     \<lparr>source_rows = [], chunk_rows = []\<rparr>"
proof -
  let ?env = "demo_env\<lparr>net := all_down\<rparr>"
  let ?ex = "\<lparr>e_title = ''Title'', e_content = ''Hello world. This is a test.'', e_metadata = []\<rparr>"
  let ?e = "Error (combined_message (Error ''Gemini API 503: '') (Error ''OpenAI API 500: ''))"
  let ?w = "replicate 3 (''google'', [''Hello world. This is a test.'']) @
            replicate 3 (''openai'', [''Hello world. This is a test.''])"
  have h1: "''https://example.com/a'' = normalizeUrl (new_URL ?env) ''https://www.example.com/a/''"
    by code_simp
  have h2: "''article'' = detectSourceType (Some ''https://example.com/a'')"
    by code_simp
  have h3: "find (\<lambda>r. s_url r = ''https://example.com/a'') (source_rows (store empty_sys)) = None"
    by (simp add: empty_sys_def)
  have h4: "extractContent ?env ''https://example.com/a'' ''article'' = Inr ?ex"
    by (simp add: demo_env_def)
  have h5: "''Hello world. This is a test.'' = truncateContent (e_content ?ex)"
    by (simp add: truncateContent_def)
  have h6: "''Hello world. This is a test.'' \<noteq> []" by simp
  have h7: "validateContent ?env ''Hello world. This is a test.'' ''article'' (e_metadata ?ex) = None"
    by (simp add: demo_env_def)
  have h8: "find (\<lambda>r. s_content_hash r = Some (sha256_hex ?env ''Hello world. This is a test.''))
      (source_rows (store empty_sys)) = None"
    by (simp add: empty_sys_def)
  have ct: "chunkText ''Hello world. This is a test.'' = [''Hello world. This is a test.'']"
    by (simp add: chunkText_def MIN_CHUNK_def)
  have et: "embedTexts all_down [''Hello world. This is a test.''] ([], []) = (Inl ?e, [], ?w)"
    by code_simp
  have h9: "embedTexts (net ?env) (chunkText ''Hello world. This is a test.'')
      (cache_of empty_sys, requests empty_sys) = (Inl ?e, [], ?w)"
    unfolding ct using et by (simp add: empty_sys_def)
  note h = conjI[OF h1 conjI[OF h2 conjI[OF h3 conjI[OF h4 conjI[OF h5 conjI[OF h6 conjI[OF h7 conjI[OF h8 h9]]]]]]]]
  from ingest_embed_failure_keeps_store [where env = ?env and s = empty_sys and ex = ?ex,
      THEN conjunct1, THEN mp, OF h]
  show ?thesis by (simp add: empty_sys_def)
qed

text \<open>
  C10. \<open>embedTexts\<close> on no text at all throws: with nothing uncached it reads \<open>dim\<close> of the
  first result, which does not exist; cache and network are left alone. On texts it never
  throws that error. Its callers keep the input non-empty: the embedding step of
  \<open>_ingest\<close> calls it only when there are chunks, and \<open>embedQuery\<close> passes one text, so
  neither ever throws it.
\<close>

theorem embedTexts_empty_throws:
  "embedTexts env [] (cache, w) = (Inl undefined_read, cache, w) \<and>
   (texts \<noteq> [] \<longrightarrow> fst (embedTexts env texts st) \<noteq> Inl undefined_read) \<and>
   fst (embed_chunks env chunks st) \<noteq> Inl undefined_read \<and>
   fst (embedQuery env t st) \<noteq> Inl undefined_read"
proof -
  have ne: "fst (embedTexts env xs st) \<noteq> Inl undefined_read" if "xs \<noteq> []" for xs st
  proof
    assume a: "fst (embedTexts env xs st) = Inl undefined_read"
    obtain c w where st: "st = (c, w)" by (cases st)
    obtain res c' w' where r: "embedTexts env xs (c, w) = (res, c', w')"
      by (cases "embedTexts env xs (c, w)")
    with a st have "res = Inl undefined_read" by simp
    with embedTexts_shape[OF r] that show False
      by (simp add: undefined_read_def)
  qed
  have 1: "embedTexts env [] (cache, w) = (Inl undefined_read, cache, w)"
    by (simp add: embedTexts_def)
  have 3: "fst (embed_chunks env chunks st) \<noteq> Inl undefined_read"
  proof (cases "chunks = []")
    case True
    then show ?thesis by (simp add: embed_chunks_def)
  next
    case False
    with ne[OF False, of st] show ?thesis
      by (auto simp: embed_chunks_def split: prod.splits sum.splits)
  qed
  have 4: "fst (embedQuery env t st) \<noteq> Inl undefined_read"
    using ne[of "[t]" st] by (auto simp: embedQuery_def split: prod.splits sum.splits)
  from 1 ne[of texts st] 3 4 show ?thesis by blast
qed

theorem embedTexts_empty_throws_witness:
  "embedTexts all_down [] ([], []) = (Inl undefined_read, [], []) \<and>
   [''a''] \<noteq> [] \<and>
   fst (embedTexts all_down [''a''] ([], [])) \<noteq> Inl undefined_read \<and>
   fst (embed_chunks all_down [] ([], [])) = Inr ([], 0, None, None)"
proof -
  note t = embedTexts_empty_throws [where env = all_down and cache = "[]" and w = "[]"
      and texts = "[''a'']" and st = "([], [])"]
  have "[''a''] \<noteq> []" by simp
  with t have "fst (embedTexts all_down [''a''] ([], [])) \<noteq> Inl undefined_read" by blast
  moreover from t have "embedTexts all_down [] ([], []) = (Inl undefined_read, [], [])" by blast
  moreover have "fst (embed_chunks all_down [] ([], [])) = Inr ([], 0, None, None)"
    by (simp add: embed_chunks_def)
  ultimately show ?thesis by simp
qed

section \<open>Facts about the retrieval scorer\<close>

lemma r_score_make_result [simp]: "r_score (make_result item) = snd (snd item)"
  by (cases item) (simp add: make_result_def)

lemma r_source_id_make_result [simp]: "r_source_id (make_result item) = c_source_id (fst item)"
  by (cases item) (simp add: make_result_def)

lemma dedup_loop_distinct:
  "distinct (map r_source_id results) \<Longrightarrow> r_source_id ` set results \<subseteq> seen \<Longrightarrow>
     distinct (map r_source_id (dedup_loop topK items seen results))"
proof (induction items arbitrary: seen results)
  case Nil
  then show ?case by simp
next
  case (Cons item rest)
  show ?case
  proof (cases "c_source_id (fst item) \<in> seen")
    case True
    with Cons show ?thesis by simp
  next
    case False
    with Cons.prems have d: "distinct (map r_source_id (results @ [make_result item]))"
      by auto
    have s: "r_source_id ` set (results @ [make_result item]) \<subseteq> insert (c_source_id (fst item)) seen"
      using Cons.prems(2) by auto
    from Cons.IH[OF d s] d False show ?thesis by simp
  qed
qed

lemma dedup_loop_sorted:
  "sorted_wrt (\<lambda>a b. r_score a \<ge> r_score b) results \<Longrightarrow>
   sorted_wrt (\<lambda>a b. snd (snd a) \<ge> snd (snd b)) items \<Longrightarrow>
   (\<forall>r\<in>set results. \<forall>i\<in>set items. r_score r \<ge> snd (snd i)) \<Longrightarrow>
     sorted_wrt (\<lambda>a b. r_score a \<ge> r_score b) (dedup_loop topK items seen results)"
proof (induction items arbitrary: seen results)
  case Nil
  then show ?case by simp
next
  case (Cons item rest)
  from Cons.prems(2) have rest: "sorted_wrt (\<lambda>a b. snd (snd a) \<ge> snd (snd b)) rest"
    and top: "\<forall>i\<in>set rest. snd (snd item) \<ge> snd (snd i)" by auto
  from Cons.prems(3) have low: "\<forall>r\<in>set results. \<forall>i\<in>set rest. r_score r \<ge> snd (snd i)"
    by auto
  show ?case
  proof (cases "c_source_id (fst item) \<in> seen")
    case True
    with Cons.IH[OF Cons.prems(1) rest low] show ?thesis by simp
  next
    case False
    have p: "sorted_wrt (\<lambda>a b. r_score a \<ge> r_score b) (results @ [make_result item])"
      using Cons.prems(1,3) by (auto simp: sorted_wrt_append)
    have l: "\<forall>r\<in>set (results @ [make_result item]). \<forall>i\<in>set rest. r_score r \<ge> snd (snd i)"
      using low top by auto
    from Cons.IH[OF p rest l] p False show ?thesis by simp
  qed
qed

lemma dedup_loop_length:
  "int (length results) < max 1 topK \<Longrightarrow>
     int (length (dedup_loop topK items seen results)) \<le> max 1 topK"
proof (induction items arbitrary: seen results)
  case Nil
  then show ?case by simp
next
  case (Cons item rest)
  show ?case
  proof (cases "c_source_id (fst item) \<in> seen")
    case True
    with Cons show ?thesis by simp
  next
    case False
    show ?thesis
    proof (cases "int (length (results @ [make_result item])) \<ge> topK")
      case True
      with False Cons.prems show ?thesis by auto
    next
      case stop: False
      then have "int (length (results @ [make_result item])) < max 1 topK" by simp
      from Cons.IH[OF this] False stop show ?thesis by simp
    qed
  qed
qed

lemma sorted_by_falling_score:
  "sorted_wrt (\<lambda>a b. snd (snd a) \<ge> snd (snd b)) (sort_key (\<lambda>item. - snd (snd item)) (xs :: scored list))"
proof -
  have "sorted (map (\<lambda>item. - snd (snd item)) (sort_key (\<lambda>item. - snd (snd item)) xs))"
    by (rule sorted_sort_key)
  then show ?thesis
    by (simp add: sorted_map sorted_wrt_iff_nth_less)
qed

text \<open>The run of \<open>query\<close> on the store of three chunks, for any limit.\<close>

lemma query_three_chunk_db:
  "fst (query cache_demo_net ''q'' topK three_chunk_db ([], [])) =
     Inr (Some (dedup_loop topK [(chunk1, src1, 1), (chunk3, src2, 0), (chunk2, src1, -1)] {} []))"
proof -
  let ?q = "\<lparr>dim = 1, provider = ''google'', model = ''text-embedding-004'', embedding = Some [1]\<rparr>"
  have "fst (embedQuery cache_demo_net ''q'' ([], [])) = Inr ?q"
    by code_simp
  then obtain st' where e: "embedQuery cache_demo_net ''q'' ([], []) = (Inr ?q, st')"
    by (metis prod.collapse)
  have "select_rows three_chunk_db 1 = [(chunk1, src1), (chunk2, src1), (chunk3, src2)]"
    by code_simp
  then have r: "select_rows three_chunk_db (Suc 0) = [(chunk1, src1), (chunk2, src1), (chunk3, src2)]"
    by simp
  have c: "cosineSimilarity [1] (c_embedding chunk1) = Some 1"
    "cosineSimilarity [1] (c_embedding chunk2) = Some (-1)"
    "cosineSimilarity [1] (c_embedding chunk3) = Some 0"
    by (simp_all add: cosineSimilarity_def Let_def chunk1_def chunk2_def chunk3_def)
  have s: "sort_key (\<lambda>item. - snd (snd item))
      [(chunk1, src1, 1 :: real), (chunk2, src1, -1), (chunk3, src2, 0)] =
      [(chunk1, src1, 1), (chunk3, src2, 0), (chunk2, src1, -1)]"
    by simp
  have "query cache_demo_net ''q'' topK three_chunk_db ([], []) =
      (Inr (Some (dedup_loop topK [(chunk1, src1, 1), (chunk3, src2, 0), (chunk2, src1, -1)] {} [])), st')"
    unfolding query_def e
    by (simp add: r c s deserializeEmbedding_def Let_def del: dedup_loop.simps sort_key_simps)
  then show ?thesis by simp
qed

lemma c_source_id_chunks [simp]:
  "c_source_id chunk1 = ''s1''" "c_source_id chunk2 = ''s1''" "c_source_id chunk3 = ''s2''"
  by (simp_all add: chunk1_def chunk2_def chunk3_def)

section \<open>The results of a query\<close>

text \<open>
  C6 fails on the code at the limit 0. The loop of \<open>query\<close> pushes a result and only then
  compares the number of results with the limit, so \<open>query(''q'', 0)\<close> on a store with
  three matching chunks of two sources returns one result, the best chunk, where the
  claim allows at most the requested number of entries, none.
\<close>

theorem query_limit_zero_returns_one:
  "fst (query cache_demo_net ''q'' 0 three_chunk_db ([], [])) =
     Inr (Some [make_result (chunk1, src1, 1)]) \<and>
   length [make_result (chunk1, src1, 1)] = 1"
  unfolding query_three_chunk_db by simp

text \<open>
  What holds for every question, limit and store: when \<open>query\<close> returns a list, no two of
  its results have the same source id, the scores never rise along it, and it has at
  most \<open>topK\<close> results, or one when \<open>topK\<close> is below one.
\<close>

theorem query_deduped_sorted_bounded:
  assumes "query env question topK d st = (Inr (Some rs), st')"
  shows "distinct (map r_source_id rs) \<and>
         sorted_wrt (\<lambda>a b. r_score a \<ge> r_score b) rs \<and>
         int (length rs) \<le> max 1 topK"
proof -
  have "rs = [] \<or> (\<exists>xs :: scored list. rs = dedup_loop topK (sort_key (\<lambda>item. - snd (snd item)) xs) {} [])"
    using assms
    by (auto simp: query_def Let_def split: prod.splits sum.splits if_splits option.splits)
  then show ?thesis
  proof
    assume "rs = []"
    then show ?thesis by simp
  next
    assume "\<exists>xs :: scored list. rs = dedup_loop topK (sort_key (\<lambda>item. - snd (snd item)) xs) {} []"
    then obtain xs :: "scored list" where
      rs: "rs = dedup_loop topK (sort_key (\<lambda>item. - snd (snd item)) xs) {} []" by blast
    have 1: "distinct (map r_source_id rs)"
      unfolding rs by (rule dedup_loop_distinct) simp_all
    have 2: "sorted_wrt (\<lambda>a b. r_score a \<ge> r_score b) rs"
      unfolding rs by (rule dedup_loop_sorted) (simp_all add: sorted_by_falling_score)
    have 3: "int (length rs) \<le> max 1 topK"
      unfolding rs by (rule dedup_loop_length) simp
    from 1 2 3 show ?thesis by blast
  qed
qed

text \<open>
  On the store of three chunks with the limit 10: the two chunks of the first source
  give one result, and the results are in the order of the scores 1 and 0.
\<close>

theorem query_deduped_sorted_bounded_witness:
  "fst (query cache_demo_net ''q'' 10 three_chunk_db ([], [])) =
     Inr (Some [make_result (chunk1, src1, 1), make_result (chunk3, src2, 0)]) \<and>
   distinct (map r_source_id [make_result (chunk1, src1, 1), make_result (chunk3, src2, 0)]) \<and>
   sorted_wrt (\<lambda>a b. r_score a \<ge> r_score b) [make_result (chunk1, src1, 1), make_result (chunk3, src2, 0)] \<and>
   int (length [make_result (chunk1, src1, 1), make_result (chunk3, src2, 0)]) \<le> max 1 10"
proof -
  have f: "fst (query cache_demo_net ''q'' 10 three_chunk_db ([], [])) =
     Inr (Some [make_result (chunk1, src1, 1), make_result (chunk3, src2, 0)])"
    unfolding query_three_chunk_db by simp
  then have h: "query cache_demo_net ''q'' 10 three_chunk_db ([], []) =
     (Inr (Some [make_result (chunk1, src1, 1), make_result (chunk3, src2, 0)]),
      snd (query cache_demo_net ''q'' 10 three_chunk_db ([], [])))"
    by (metis prod.collapse)
  from f query_deduped_sorted_bounded [OF h] show ?thesis
    by (simp only: simp_thms)
qed

end
